theory Spec2Isabelle
  imports Main
begin

section \<open>Byte buffers and the Buffer primitives the patcher calls\<close>

text \<open>
  A Node \<open>Buffer\<close> is a fixed-length array of bytes. A byte is modelled as a \<open>char\<close>
  (eight bits), a buffer as a list of them, so that the literals of the command line
  front end (\<open>Buffer.from("isCustom:!0")\<close>) are string literals here.
\<close>

type_synonym byte = char
type_synonym buffer = "byte list"

text \<open>
  \<open>occursAt buf v i\<close>: the bytes of \<open>v\<close> stand in \<open>buf\<close> from offset \<open>i\<close> on. This is
  the notion of an occurrence the properties below are stated with; the code never calls it.
\<close>

definition occursAt :: "buffer \<Rightarrow> buffer \<Rightarrow> nat \<Rightarrow> bool" where
  "occursAt buf v i \<longleftrightarrow> i + length v \<le> length buf \<and> take (length v) (drop i buf) = v"

definition occursIn :: "buffer \<Rightarrow> buffer \<Rightarrow> bool" where
  "occursIn buf v \<longleftrightarrow> (\<exists>i \<le> length buf. occursAt buf v i)"

text \<open>
  \<open>buf.indexOf(value, byteOffset)\<close> for a buffer \<open>value\<close> and an offset that is a
  non-negative integer: the least offset from \<open>byteOffset\<close> on where \<open>value\<close> stands, and
  \<open>-1\<close> (here \<open>None\<close>) when there is none. For an empty \<open>value\<close> Node returns
  \<open>byteOffset\<close>, capped at the length of the buffer.
\<close>

function indexOf_scan :: "buffer \<Rightarrow> buffer \<Rightarrow> nat \<Rightarrow> nat option" where
  "indexOf_scan buf v i =
     (if length buf < i + length v then None
      else if take (length v) (drop i buf) = v then Some i
      else indexOf_scan buf v (Suc i))"
  by pat_completeness auto
termination
  by (relation "measure (\<lambda>(buf, v, i). Suc (length buf) - i)") auto

declare indexOf_scan.simps [simp del]

definition indexOf :: "buffer \<Rightarrow> buffer \<Rightarrow> nat \<Rightarrow> nat option" where
  "indexOf buf v byteOffset =
     (if v = [] then Some (min byteOffset (length buf)) else indexOf_scan buf v byteOffset)"

text \<open>\<open>buf.includes(value)\<close> is \<open>buf.indexOf(value) !== -1\<close>.\<close>

definition includes_buf :: "buffer \<Rightarrow> buffer \<Rightarrow> bool" where
  "includes_buf buf v \<longleftrightarrow> indexOf buf v 0 \<noteq> None"

text \<open>
  \<open>source.copy(target, targetStart)\<close> writes the bytes of \<open>source\<close> into \<open>target\<close> from
  \<open>targetStart\<close> on and stops at the end of \<open>target\<close>: the target is never resized. The
  model returns the target after the call.
\<close>

definition copy :: "buffer \<Rightarrow> buffer \<Rightarrow> nat \<Rightarrow> buffer" where
  "copy source target targetStart =
     (if length target \<le> targetStart \<or> source = [] then target
      else take targetStart target @ take (length target - targetStart) source
             @ drop (targetStart + length source) target)"

section \<open>findAllPositions\<close>

text \<open>
  The \<open>while (true)\<close> loop of \<open>findAllPositions\<close>, with its two variables \<open>pos\<close> and
  \<open>positions\<close>. The loop has no bound of its own, so it is a partial function: \<open>None\<close>
  is a loop that never reaches its \<open>break\<close>. (Such a loop pushes a position at every
  turn, so a real run of it ends when the array can grow no more, in an error of the
  runtime; either way the function returns no list.)
\<close>

partial_function (option) findAllPositions_loop ::
  "buffer \<Rightarrow> buffer \<Rightarrow> nat \<Rightarrow> nat list \<Rightarrow> nat list option" where
  "findAllPositions_loop buffer pattern pos positions =
     (case indexOf buffer pattern pos of
        None \<Rightarrow> Some positions
      | Some p \<Rightarrow> findAllPositions_loop buffer pattern (p + length pattern) (positions @ [p]))"

declare findAllPositions_loop.simps [code]

definition findAllPositions :: "buffer \<Rightarrow> buffer \<Rightarrow> nat list option" where
  "findAllPositions buffer pattern = findAllPositions_loop buffer pattern 0 []"

section \<open>The file system the patcher works on\<close>

text \<open>
  The patcher reaches the disk through \<open>existsSync\<close>, \<open>stat\<close>, \<open>readFile\<close>,
  \<open>writeFile\<close>, \<open>copyFile\<close> and \<open>chmod\<close>, and gives each of them a path string. A
  path string is not a file: \<open>droid.backup\<close> and \<open>./droid.backup\<close> are two strings and
  one file. So the disk has two parts. \<open>resolve\<close> takes a path string to the file it names,
  as the operating system does with the working directory, with \<open>.\<close> and \<open>..\<close> and with
  links; it is any function, and two paths name one file exactly when they resolve alike.
  \<open>files\<close> gives the regular file, if there is one, for each resolved name. The patcher
  creates, writes and changes the mode of regular files only, so \<open>resolve\<close> stays as it is
  throughout a call.

  A file has its bytes and its permission bits. The process is taken to own every file and
  not to be the superuser, so that the owner bits decide what it may read (\<open>0o400\<close>) and
  write (\<open>0o200\<close>), and a file it creates gets the mode \<open>0o644\<close> (\<open>0o666\<close> under the
  usual umask). A rejected promise is an \<open>error\<close> value in \<open>Inl\<close>.
\<close>

type_synonym path = string

record regular_file =
  content :: buffer
  mode :: nat

record filesystem =
  resolve :: "path \<Rightarrow> path"
  files :: "path \<Rightarrow> regular_file option"

datatype error = Error string | ENOENT path | EACCES path

text \<open>The file a path names, and the disk with a file put where a path names.\<close>

definition fileAt :: "filesystem \<Rightarrow> path \<Rightarrow> regular_file option" where
  "fileAt fs p = files fs (resolve fs p)"

definition putFile :: "filesystem \<Rightarrow> path \<Rightarrow> regular_file \<Rightarrow> filesystem" where
  "putFile fs p f = fs\<lparr>files := (files fs)(resolve fs p \<mapsto> f)\<rparr>"

definition readable :: "regular_file \<Rightarrow> bool" where
  "readable f \<longleftrightarrow> (mode f div 256) mod 2 = 1"

definition writable :: "regular_file \<Rightarrow> bool" where
  "writable f \<longleftrightarrow> (mode f div 128) mod 2 = 1"

definition existsSync :: "filesystem \<Rightarrow> path \<Rightarrow> bool" where
  "existsSync fs p \<longleftrightarrow> fileAt fs p \<noteq> None"

text \<open>Of the result of \<open>stat\<close> the patcher reads the size only.\<close>

definition stat :: "filesystem \<Rightarrow> path \<Rightarrow> error + nat" where
  "stat fs p = (case fileAt fs p of None \<Rightarrow> Inl (ENOENT p) | Some f \<Rightarrow> Inr (length (content f)))"

definition readFile :: "filesystem \<Rightarrow> path \<Rightarrow> error + buffer" where
  "readFile fs p =
     (case fileAt fs p of
        None \<Rightarrow> Inl (ENOENT p)
      | Some f \<Rightarrow> if readable f then Inr (content f) else Inl (EACCES p))"

definition writeFile :: "filesystem \<Rightarrow> path \<Rightarrow> buffer \<Rightarrow> error + filesystem" where
  "writeFile fs p data =
     (case fileAt fs p of
        None \<Rightarrow> Inr (putFile fs p \<lparr>content = data, mode = 420\<rparr>)
      | Some f \<Rightarrow> if writable f then Inr (putFile fs p (f\<lparr>content := data\<rparr>)) else Inl (EACCES p))"

definition copyFile :: "filesystem \<Rightarrow> path \<Rightarrow> path \<Rightarrow> error + filesystem" where
  "copyFile fs src dest =
     (case fileAt fs src of
        None \<Rightarrow> Inl (ENOENT src)
      | Some f \<Rightarrow>
          if \<not> readable f then Inl (EACCES src)
          else (case fileAt fs dest of
                  None \<Rightarrow> Inr (putFile fs dest f)
                | Some g \<Rightarrow> if writable g then Inr (putFile fs dest f) else Inl (EACCES dest)))"

definition chmod :: "filesystem \<Rightarrow> path \<Rightarrow> nat \<Rightarrow> error + filesystem" where
  "chmod fs p m =
     (case fileAt fs p of None \<Rightarrow> Inl (ENOENT p) | Some f \<Rightarrow> Inr (putFile fs p (f\<lparr>mode := m\<rparr>)))"

section \<open>patchDroid\<close>

text \<open>
  The objects of the source. A property that a JavaScript object may lack is an \<open>option\<close>
  field, \<open>None\<close> for \<open>undefined\<close>: a patch result has \<open>positions\<close> only when the pattern
  was found and \<open>alreadyPatched\<close> only when it was not, and each \<open>return\<close> of
  \<open>patchDroid\<close> builds an object with its own set of properties.
\<close>

record patch =
  name :: string
  description :: string
  pattern :: buffer
  replacement :: buffer

record patch_result =
  result_name :: string
  found :: nat
  positions :: "nat list option"
  success :: bool
  alreadyPatched :: "bool option"

record options =
  inputPath :: path
  outputPath :: "path option"
  patches :: "patch list"
  dryRun :: "bool option"
  backup :: "bool option"
  verbose :: "bool option"

record run_result =
  run_success :: bool
  run_dryRun :: "bool option"
  run_outputPath :: "path option"
  results :: "patch_result list"
  noPatchNeeded :: "bool option"
  patchedCount :: "nat option"

text \<open>JavaScript truthiness of a property that is a boolean or \<open>undefined\<close>.\<close>

definition truthy :: "bool option \<Rightarrow> bool" where
  "truthy b = (case b of None \<Rightarrow> False | Some v \<Rightarrow> v)"

text \<open>
  The body of the first \<open>for (const patch of patches)\<close> loop: the result pushed for one
  patch. Console output is left out throughout, and with it the \<open>verbose\<close> branch and
  \<open>getContext\<close>, which only print.
\<close>

definition checkPatch :: "buffer \<Rightarrow> patch \<Rightarrow> patch_result option" where
  "checkPatch buffer p =
     (case findAllPositions buffer (pattern p) of
        None \<Rightarrow> None
      | Some poss \<Rightarrow>
          if length poss = 0 then
            (let r = \<lparr>result_name = name p, found = 0, positions = None, success = False,
                      alreadyPatched = Some (includes_buf buffer (replacement p))\<rparr>
             in case findAllPositions buffer (replacement p) of
                  None \<Rightarrow> None
                | Some replacementPositions \<Rightarrow>
                    if length replacementPositions > 0
                    then Some (r\<lparr>alreadyPatched := Some True, success := True\<rparr>)
                    else Some r)
          else Some \<lparr>result_name = name p, found = length poss, positions = Some poss,
                      success = True, alreadyPatched = None\<rparr>)"

fun checkPatches :: "buffer \<Rightarrow> patch list \<Rightarrow> patch_result list option" where
  "checkPatches buffer [] = Some []"
| "checkPatches buffer (p # ps) =
     (case checkPatch buffer p of
        None \<Rightarrow> None
      | Some r \<Rightarrow> (case checkPatches buffer ps of None \<Rightarrow> None | Some rs \<Rightarrow> Some (r # rs)))"

text \<open>
  The "Apply patches" loop, on the pair of \<open>patchedBuffer\<close> and \<open>totalPatched\<close>. The result
  of a patch is looked up by name: \<open>results.find(r => r.name === patch.name)\<close>.
\<close>

fun applyPatches ::
  "patch_result list \<Rightarrow> patch list \<Rightarrow> buffer \<times> nat \<Rightarrow> buffer \<times> nat" where
  "applyPatches rs [] st = st"
| "applyPatches rs (p # ps) (patchedBuffer, totalPatched) =
     (case find (\<lambda>r. result_name r = name p) rs of
        None \<Rightarrow> applyPatches rs ps (patchedBuffer, totalPatched)
      | Some r \<Rightarrow>
          (case positions r of
             None \<Rightarrow> applyPatches rs ps (patchedBuffer, totalPatched)
           | Some poss \<Rightarrow>
               applyPatches rs ps
                 (foldl (\<lambda>b pos. copy (replacement p) b pos) patchedBuffer poss,
                  totalPatched + length poss)))"

text \<open>The "Verify patch" loop, on \<open>allVerified\<close>.\<close>

fun verifyPatches :: "buffer \<Rightarrow> patch list \<Rightarrow> bool \<Rightarrow> bool option" where
  "verifyPatches verifyBuffer [] allVerified = Some allVerified"
| "verifyPatches verifyBuffer (p # ps) allVerified =
     (case findAllPositions verifyBuffer (pattern p) of
        None \<Rightarrow> None
      | Some old \<Rightarrow>
          (case findAllPositions verifyBuffer (replacement p) of
             None \<Rightarrow> None
           | Some new \<Rightarrow>
               verifyPatches verifyBuffer ps (if length old = 0 then allVerified else False)))"

definition finalOutputPath :: "options \<Rightarrow> path" where
  "finalOutputPath opts =
     (case outputPath opts of
        None \<Rightarrow> inputPath opts @ ''.patched''
      | Some p \<Rightarrow> if p = [] then inputPath opts @ ''.patched'' else p)"

definition backupPath :: "options \<Rightarrow> path" where
  "backupPath opts = inputPath opts @ ''.backup''"

text \<open>
  \<open>patchDroid\<close> itself. It returns what the promise settles to, a thrown error or the
  result object, and the disk as the call leaves it; \<open>None\<close> is a call in which one of the
  scans never ends.
\<close>

definition patchDroid :: "options \<Rightarrow> filesystem \<Rightarrow> ((error + run_result) \<times> filesystem) option" where
  "patchDroid opts fs =
     (let dry = (case dryRun opts of None \<Rightarrow> False | Some b \<Rightarrow> b);
          bak = (case backup opts of None \<Rightarrow> True | Some b \<Rightarrow> b)
      in
      if \<not> existsSync fs (inputPath opts)
      then Some (Inl (Error (''Binary not found: '' @ inputPath opts)), fs)
      else case stat fs (inputPath opts) of
        Inl e \<Rightarrow> Some (Inl e, fs)
      | Inr stats \<Rightarrow>
      (case readFile fs (inputPath opts) of
        Inl e \<Rightarrow> Some (Inl e, fs)
      | Inr buffer \<Rightarrow>
      (case checkPatches buffer (patches opts) of
        None \<Rightarrow> None
      | Some rs \<Rightarrow>
          if dry then
            Some (Inr \<lparr>run_success = list_all (\<lambda>r. success r \<or> truthy (alreadyPatched r)) rs,
                       run_dryRun = Some True, run_outputPath = None, results = rs,
                       noPatchNeeded = None, patchedCount = None\<rparr>, fs)
          else if length (filter (\<lambda>r. found r > 0 \<and> \<not> truthy (alreadyPatched r)) rs) = 0 then
            (if list_all (\<lambda>r. truthy (alreadyPatched r)) rs
             then Some (Inr \<lparr>run_success = True, run_dryRun = None,
                             run_outputPath = Some (inputPath opts), results = rs,
                             noPatchNeeded = Some True, patchedCount = None\<rparr>, fs)
             else Some (Inr \<lparr>run_success = False, run_dryRun = None, run_outputPath = None,
                             results = rs, noPatchNeeded = None, patchedCount = None\<rparr>, fs))
          else
            (case (if bak
                   then (if \<not> existsSync fs (backupPath opts)
                         then copyFile fs (inputPath opts) (backupPath opts)
                         else Inr fs)
                   else Inr fs) of
               Inl e \<Rightarrow> Some (Inl e, fs)
             | Inr fs1 \<Rightarrow>
             (case applyPatches rs (patches opts) (buffer, 0) of
               (patchedBuffer, totalPatched) \<Rightarrow>
             (case writeFile fs1 (finalOutputPath opts) patchedBuffer of
               Inl e \<Rightarrow> Some (Inl e, fs1)
             | Inr fs2 \<Rightarrow>
             (case chmod fs2 (finalOutputPath opts) 493 of
               Inl e \<Rightarrow> Some (Inl e, fs2)
             | Inr fs3 \<Rightarrow>
             (case readFile fs3 (finalOutputPath opts) of
               Inl e \<Rightarrow> Some (Inl e, fs3)
             | Inr verifyBuffer \<Rightarrow>
             (case verifyPatches verifyBuffer (patches opts) True of
               None \<Rightarrow> None
             | Some allVerified \<Rightarrow>
                 Some (Inr \<lparr>run_success = allVerified, run_dryRun = None,
                            run_outputPath = Some (finalOutputPath opts), results = rs,
                            noPatchNeeded = None, patchedCount = Some totalPatched\<rparr>,
                       fs3))))))))))"

section \<open>Notions the properties are stated with\<close>

text \<open>
  None of these is called by the code. \<open>recorded buffer p i\<close>: the scan of \<open>buffer\<close> for
  the pattern of \<open>p\<close> ends and \<open>i\<close> is one of the positions it returns. \<open>writesAt rs p i\<close>:
  the "Apply patches" loop, looking \<open>p\<close> up by name in the results \<open>rs\<close>, copies the
  replacement of \<open>p\<close> to offset \<open>i\<close>. \<open>covers i s k\<close>: the byte at offset \<open>k\<close> lies in the
  span that \<open>s\<close> takes when it is written at \<open>i\<close>.
\<close>

definition recorded :: "buffer \<Rightarrow> patch \<Rightarrow> nat \<Rightarrow> bool" where
  "recorded buffer p i \<longleftrightarrow>
     (case findAllPositions buffer (pattern p) of None \<Rightarrow> False | Some ps \<Rightarrow> i \<in> set ps)"

definition writesAt :: "patch_result list \<Rightarrow> patch \<Rightarrow> nat \<Rightarrow> bool" where
  "writesAt rs p i \<longleftrightarrow>
     (case find (\<lambda>r. result_name r = name p) rs of
        None \<Rightarrow> False
      | Some r \<Rightarrow> (case positions r of None \<Rightarrow> False | Some poss \<Rightarrow> i \<in> set poss))"

definition covers :: "nat \<Rightarrow> buffer \<Rightarrow> nat \<Rightarrow> bool" where
  "covers i s k \<longleftrightarrow> i \<le> k \<and> k < i + length s"

section \<open>Properties of the scan\<close>

subsection \<open>What indexOf finds\<close>

lemma occursAt_bound: "occursAt buf v i \<Longrightarrow> i \<le> length buf"
  by (simp add: occursAt_def)

lemma occursIn_iff: "occursIn buf v \<longleftrightarrow> (\<exists>i. occursAt buf v i)"
  unfolding occursIn_def using occursAt_bound by blast

lemma indexOf_scan_Some:
  "indexOf_scan buf v i = Some p \<Longrightarrow>
     i \<le> p \<and> occursAt buf v p \<and> (\<forall>q. i \<le> q \<and> q < p \<longrightarrow> \<not> occursAt buf v q)"
proof (induction buf v i rule: indexOf_scan.induct)
  case (1 buf v i)
  show ?case
  proof (cases "length buf < i + length v")
    case True
    with "1.prems" show ?thesis by (simp add: indexOf_scan.simps [of buf v i])
  next
    case inb: False
    show ?thesis
    proof (cases "take (length v) (drop i buf) = v")
      case True
      with inb "1.prems" have "p = i" by (simp add: indexOf_scan.simps [of buf v i])
      with True inb show ?thesis by (auto simp: occursAt_def)
    next
      case False
      with inb "1.prems" have rec: "indexOf_scan buf v (Suc i) = Some p"
        by (simp add: indexOf_scan.simps [of buf v i])
      from "1.IH" [OF inb False rec]
      have ih: "Suc i \<le> p" "occursAt buf v p"
        "\<forall>q. Suc i \<le> q \<and> q < p \<longrightarrow> \<not> occursAt buf v q" by auto
      have ni: "\<not> occursAt buf v i" using False by (simp add: occursAt_def)
      have "\<not> occursAt buf v q" if q: "i \<le> q \<and> q < p" for q
      proof (cases "q = i")
        case True
        with ni show ?thesis by simp
      next
        case False
        with q have "Suc i \<le> q \<and> q < p" by simp
        with ih(3) show ?thesis by blast
      qed
      with ih(1,2) show ?thesis by auto
    qed
  qed
qed

lemma indexOf_scan_None:
  "indexOf_scan buf v i = None \<Longrightarrow> i \<le> q \<Longrightarrow> \<not> occursAt buf v q"
proof (induction buf v i rule: indexOf_scan.induct)
  case (1 buf v i)
  show ?case
  proof (cases "length buf < i + length v")
    case True
    with "1.prems" show ?thesis by (simp add: occursAt_def)
  next
    case inb: False
    have nomatch: "take (length v) (drop i buf) \<noteq> v"
      using inb "1.prems"(1) by (auto simp: indexOf_scan.simps [of buf v i])
    with inb "1.prems" have rec: "indexOf_scan buf v (Suc i) = None"
      by (simp add: indexOf_scan.simps [of buf v i])
    show ?thesis
    proof (cases "q = i")
      case True
      with nomatch show ?thesis by (simp add: occursAt_def)
    next
      case False
      with "1.prems" have "Suc i \<le> q" by simp
      from "1.IH" [OF inb nomatch rec this] show ?thesis .
    qed
  qed
qed

lemma indexOf_Some:
  "v \<noteq> [] \<Longrightarrow> indexOf buf v i = Some p \<Longrightarrow>
     i \<le> p \<and> occursAt buf v p \<and> (\<forall>q. i \<le> q \<and> q < p \<longrightarrow> \<not> occursAt buf v q)"
  by (simp add: indexOf_def indexOf_scan_Some)

lemma indexOf_None:
  "v \<noteq> [] \<Longrightarrow> indexOf buf v i = None \<Longrightarrow> i \<le> q \<Longrightarrow> \<not> occursAt buf v q"
  by (simp add: indexOf_def indexOf_scan_None)

lemma indexOf_empty: "indexOf buf [] i = Some (min i (length buf))"
  by (simp add: indexOf_def)

lemma findAllPositions_loop_spec:
  assumes "pat \<noteq> []"
  shows "\<exists>ps. findAllPositions_loop buffer pat pos acc = Some (acc @ ps)
            \<and> (\<forall>p \<in> set ps. pos \<le> p \<and> occursAt buffer pat p)
            \<and> sorted_wrt (\<lambda>p q. p + length pat \<le> q) ps
            \<and> (\<forall>q. pos \<le> q \<and> occursAt buffer pat q \<longrightarrow>
                   (\<exists>p \<in> set ps. p \<le> q \<and> q < p + length pat))"
proof (induction "length buffer - pos" arbitrary: pos acc rule: less_induct)
  case less
  show ?case
  proof (cases "indexOf buffer pat pos")
    case None
    have "findAllPositions_loop buffer pat pos acc = Some (acc @ [])"
      by (subst findAllPositions_loop.simps) (simp add: None)
    moreover have "\<forall>q. pos \<le> q \<longrightarrow> \<not> occursAt buffer pat q"
      using indexOf_None [OF assms None] by blast
    ultimately show ?thesis by (intro exI [of _ "[]"]) simp
  next
    case (Some p)
    from indexOf_Some [OF assms Some]
    have p: "pos \<le> p" "occursAt buffer pat p"
      "\<forall>q. pos \<le> q \<and> q < p \<longrightarrow> \<not> occursAt buffer pat q" by auto
    from p(2) have inb: "p + length pat \<le> length buffer" by (simp add: occursAt_def)
    from assms have "0 < length pat" by simp
    with p(1) inb have "length buffer - (p + length pat) < length buffer - pos" by arith
    from less [OF this, of "acc @ [p]"]
    obtain ps where ps:
      "findAllPositions_loop buffer pat (p + length pat) (acc @ [p]) = Some ((acc @ [p]) @ ps)"
      "\<forall>x \<in> set ps. p + length pat \<le> x \<and> occursAt buffer pat x"
      "sorted_wrt (\<lambda>p q. p + length pat \<le> q) ps"
      "\<forall>q. p + length pat \<le> q \<and> occursAt buffer pat q \<longrightarrow>
             (\<exists>x \<in> set ps. x \<le> q \<and> q < x + length pat)"
      by blast
    have run: "findAllPositions_loop buffer pat pos acc = Some (acc @ (p # ps))"
      by (subst findAllPositions_loop.simps) (simp add: Some ps(1))
    have sound: "\<forall>x \<in> set (p # ps). pos \<le> x \<and> occursAt buffer pat x"
      using p(1,2) ps(2) by auto
    have sorted: "sorted_wrt (\<lambda>p q. p + length pat \<le> q) (p # ps)"
      using ps(2,3) by simp
    have complete: "\<exists>x \<in> set (p # ps). x \<le> q \<and> q < x + length pat"
      if q: "pos \<le> q" "occursAt buffer pat q" for q
    proof (cases "q < p + length pat")
      case True
      from q p(3) have "p \<le> q" by (meson not_le_imp_less)
      with True show ?thesis by simp
    next
      case False
      then have "p + length pat \<le> q" by simp
      with q(2) ps(4) obtain x where "x \<in> set ps" "x \<le> q \<and> q < x + length pat"
        by blast
      then show ?thesis by auto
    qed
    from run sound sorted complete show ?thesis by blast
  qed
qed

lemma findAllPositions_loop_Some_nonempty:
  "findAllPositions_loop buffer pat pos acc = Some r \<Longrightarrow> pat \<noteq> []"
proof (rule findAllPositions_loop.raw_induct
    [where P = "\<lambda>b v i a y. v \<noteq> []" and buffer = buffer and pattern = pat
       and pos = pos and positions = acc and y = r])
  fix f :: "buffer \<Rightarrow> buffer \<Rightarrow> nat \<Rightarrow> nat list \<Rightarrow> nat list option"
  fix b v :: buffer and i :: nat and a y :: "nat list"
  assume ih: "\<And>b v i a y. f b v i a = Some y \<Longrightarrow> v \<noteq> []"
  assume step: "(case indexOf b v i of None \<Rightarrow> Some a
                 | Some p \<Rightarrow> f b v (p + length v) (a @ [p])) = Some y"
  show "v \<noteq> []"
  proof
    assume "v = []"
    with step have "f b [] (min i (length b)) (a @ [min i (length b)]) = Some y"
      by (simp add: indexOf_empty)
    from ih [OF this] show False by simp
  qed
qed

lemma findAllPositions_loop_empty: "findAllPositions_loop buffer [] pos acc = None"
  using findAllPositions_loop_Some_nonempty [of buffer "[]" pos acc]
  by (cases "findAllPositions_loop buffer [] pos acc") auto

lemma findAllPositions_empty: "findAllPositions buffer [] = None"
  by (simp add: findAllPositions_def findAllPositions_loop_empty)

lemma findAllPositions_Some_nonempty: "findAllPositions buffer pat = Some ps \<Longrightarrow> pat \<noteq> []"
  unfolding findAllPositions_def by (rule findAllPositions_loop_Some_nonempty)

lemma findAllPositions_spec:
  assumes "pat \<noteq> []"
  shows "\<exists>ps. findAllPositions buffer pat = Some ps
            \<and> (\<forall>p \<in> set ps. occursAt buffer pat p)
            \<and> sorted_wrt (\<lambda>p q. p + length pat \<le> q) ps
            \<and> (\<forall>q. occursAt buffer pat q \<longrightarrow> (\<exists>p \<in> set ps. p \<le> q \<and> q < p + length pat))"
  using findAllPositions_loop_spec [OF assms, of buffer 0 "[]"]
  by (auto simp: findAllPositions_def)

lemma sorted_wrt_gap_strict:
  "v \<noteq> [] \<Longrightarrow> sorted_wrt (\<lambda>p q. p + length v \<le> q) ps \<Longrightarrow> sorted_wrt (<) (ps :: nat list)"
  by (erule sorted_wrt_mono_rel [rotated]) (cases v; simp)

lemma findAllPositions_Nil_iff:
  assumes "pat \<noteq> []"
  shows "findAllPositions buffer pat = Some [] \<longleftrightarrow> \<not> occursIn buffer pat"
proof -
  from findAllPositions_spec [OF assms, of buffer]
  obtain ps where ps: "findAllPositions buffer pat = Some ps"
    "\<forall>p \<in> set ps. occursAt buffer pat p"
    "\<forall>q. occursAt buffer pat q \<longrightarrow> (\<exists>p \<in> set ps. p \<le> q \<and> q < p + length pat)"
    by blast
  show ?thesis
  proof
    assume "findAllPositions buffer pat = Some []"
    with ps(1) have "ps = []" by simp
    with ps(3) show "\<not> occursIn buffer pat" by (simp add: occursIn_iff)
  next
    assume no: "\<not> occursIn buffer pat"
    have "ps = []"
    proof (cases ps)
      case (Cons p ps')
      with ps(2) have "occursAt buffer pat p" by simp
      with no show ?thesis by (simp add: occursIn_iff)
    qed simp
    with ps(1) show "findAllPositions buffer pat = Some []" by simp
  qed
qed

lemma occursIn_empty: "occursIn buffer []"
  unfolding occursIn_def occursAt_def by (intro exI [of _ 0]) simp

lemma includes_buf_iff: "includes_buf buffer v \<longleftrightarrow> occursIn buffer v"
proof (cases "v = []")
  case True
  then show ?thesis by (simp add: includes_buf_def indexOf_def occursIn_empty)
next
  case False
  show ?thesis
  proof (cases "indexOf buffer v 0")
    case None
    from indexOf_None [OF False None] have "\<not> occursIn buffer v" by (simp add: occursIn_iff)
    with None show ?thesis by (simp add: includes_buf_def)
  next
    case (Some p)
    from indexOf_Some [OF False Some] have "occursIn buffer v" by (auto simp: occursIn_iff)
    with Some show ?thesis by (simp add: includes_buf_def)
  qed
qed


section \<open>Properties of the buffer copy and of the run that writes\<close>

lemma length_copy: "length (copy s t p) = length t"
  by (auto simp: copy_def)

lemma nth_copy:
  "i < length t \<Longrightarrow>
     copy s t p ! i = (if p \<le> i \<and> i < p + length s then s ! (i - p) else t ! i)"
  by (auto simp: copy_def nth_append min_def)

lemma length_foldl_copy: "length (foldl (\<lambda>b pos. copy s b pos) t ps) = length t"
  by (induction ps arbitrary: t) (simp_all add: length_copy)

lemma length_applyPatches: "length (fst (applyPatches rs ps (b, n))) = length b"
  by (induction rs ps "(b, n)" arbitrary: b n rule: applyPatches.induct)
    (auto simp: length_foldl_copy split: option.splits)

lemma regular_file_update_all:
  "x\<lparr>content := b, mode := m\<rparr> = \<lparr>content = b, mode = m\<rparr>"
  by (cases x) simp

lemma resolve_putFile [simp]: "resolve (putFile fs p f) = resolve fs"
  by (simp add: putFile_def)

lemma fileAt_putFile:
  "fileAt (putFile fs p f) q = (if resolve fs q = resolve fs p then Some f else fileAt fs q)"
  by (simp add: fileAt_def putFile_def)

lemma fileAt_putFile_same [simp]: "fileAt (putFile fs p f) p = Some f"
  by (simp add: fileAt_putFile)

lemma putFile_putFile [simp]: "putFile (putFile fs p f) p g = putFile fs p g"
  by (simp add: putFile_def)

lemma writeFile_chmod:
  "writeFile fs1 p b = Inr fs2 \<Longrightarrow> chmod fs2 p m = Inr fs3 \<Longrightarrow>
     fs3 = putFile fs1 p \<lparr>content = b, mode = m\<rparr>"
  by (auto simp: writeFile_def chmod_def fileAt_putFile regular_file_update_all
      split: option.splits if_splits)

lemma backup_step:
  "(if bak then (if \<not> existsSync fs bp then copyFile fs ip bp else Inr fs) else Inr fs) = Inr fs1
   \<Longrightarrow> fileAt fs ip = Some f \<Longrightarrow>
   fs1 = (if bak \<and> fileAt fs bp = None then putFile fs bp f else fs)"
  by (auto simp: existsSync_def copyFile_def split: if_splits option.splits)

lemma patchDroid_written_raw:
  assumes run: "patchDroid opts fs = Some (Inr res, fs')"
    and live: "dryRun opts \<noteq> Some True"
    and needed: "\<exists>r \<in> set (results res). 0 < found r \<and> \<not> truthy (alreadyPatched r)"
  shows "\<exists>f fs1 fs2 patchedBuffer totalPatched verifyBuffer allVerified.
    fileAt fs (inputPath opts) = Some f \<and> readable f \<and>
    checkPatches (content f) (patches opts) = Some (results res) \<and>
    (if backup opts \<noteq> Some False
     then (if \<not> existsSync fs (backupPath opts)
           then copyFile fs (inputPath opts) (backupPath opts) else Inr fs)
     else Inr fs) = Inr fs1 \<and>
    applyPatches (results res) (patches opts) (content f, 0) = (patchedBuffer, totalPatched) \<and>
    writeFile fs1 (finalOutputPath opts) patchedBuffer = Inr fs2 \<and>
    chmod fs2 (finalOutputPath opts) 493 = Inr fs' \<and>
    readFile fs' (finalOutputPath opts) = Inr verifyBuffer \<and>
    verifyPatches verifyBuffer (patches opts) True = Some allVerified \<and>
    res = \<lparr>run_success = allVerified, run_dryRun = None,
            run_outputPath = Some (finalOutputPath opts), results = results res,
            noPatchNeeded = None, patchedCount = Some totalPatched\<rparr>"
proof -
  from run obtain f where f: "fileAt fs (inputPath opts) = Some f"
    by (cases "fileAt fs (inputPath opts)") (auto simp: patchDroid_def existsSync_def Let_def)
  from run f have rd: "readable f"
    by (auto simp: patchDroid_def existsSync_def stat_def readFile_def Let_def split: if_splits)
  from f rd have pre: "existsSync fs (inputPath opts)"
    "stat fs (inputPath opts) = Inr (length (content f))"
    "readFile fs (inputPath opts) = Inr (content f)"
    by (simp_all add: existsSync_def stat_def readFile_def)
  from run pre obtain rs where rs: "checkPatches (content f) (patches opts) = Some rs"
    by (cases "checkPatches (content f) (patches opts)") (auto simp: patchDroid_def Let_def)
  have dry: "(case dryRun opts of None \<Rightarrow> False | Some b \<Rightarrow> b) = False"
    using live by (cases "dryRun opts") auto
  have res_rs: "results res = rs"
    using run pre rs dry
    by (auto simp: patchDroid_def Let_def split: if_splits sum.splits prod.splits option.splits)
  with needed have nz: "filter (\<lambda>r. found r > 0 \<and> \<not> truthy (alreadyPatched r)) rs \<noteq> []"
    by (auto simp: filter_empty_conv)
  have bak: "(case backup opts of None \<Rightarrow> True | Some b \<Rightarrow> b) = (backup opts \<noteq> Some False)"
    by (cases "backup opts") auto
  from run show ?thesis
    unfolding patchDroid_def Let_def res_rs bak dry
    by (simp add: pre rs nz f rd split: sum.splits prod.splits option.splits
          split del: if_split)
qed

lemma patchDroid_written:
  assumes run: "patchDroid opts fs = Some (Inr res, fs')"
    and live: "dryRun opts \<noteq> Some True"
    and needed: "\<exists>r \<in> set (results res). 0 < found r \<and> \<not> truthy (alreadyPatched r)"
  obtains f fs1 patchedBuffer where
    "fileAt fs (inputPath opts) = Some f" "readable f"
    "checkPatches (content f) (patches opts) = Some (results res)"
    "fs1 = (if backup opts \<noteq> Some False \<and> fileAt fs (backupPath opts) = None
            then putFile fs (backupPath opts) f else fs)"
    "applyPatches (results res) (patches opts) (content f, 0) = (patchedBuffer, the (patchedCount res))"
    "fs' = putFile fs1 (finalOutputPath opts) \<lparr>content = patchedBuffer, mode = 493\<rparr>"
    "verifyPatches patchedBuffer (patches opts) True = Some (run_success res)"
    "run_outputPath res = Some (finalOutputPath opts)"
proof -
  from patchDroid_written_raw [OF assms]
  obtain f fs1 fs2 patchedBuffer totalPatched verifyBuffer allVerified where w:
    "fileAt fs (inputPath opts) = Some f" "readable f"
    "checkPatches (content f) (patches opts) = Some (results res)"
    "(if backup opts \<noteq> Some False
     then (if \<not> existsSync fs (backupPath opts)
           then copyFile fs (inputPath opts) (backupPath opts) else Inr fs)
     else Inr fs) = Inr fs1"
    "applyPatches (results res) (patches opts) (content f, 0) = (patchedBuffer, totalPatched)"
    "writeFile fs1 (finalOutputPath opts) patchedBuffer = Inr fs2"
    "chmod fs2 (finalOutputPath opts) 493 = Inr fs'"
    "readFile fs' (finalOutputPath opts) = Inr verifyBuffer"
    "verifyPatches verifyBuffer (patches opts) True = Some allVerified"
    "res = \<lparr>run_success = allVerified, run_dryRun = None,
            run_outputPath = Some (finalOutputPath opts), results = results res,
            noPatchNeeded = None, patchedCount = Some totalPatched\<rparr>"
    by blast
  have fs1: "fs1 = (if backup opts \<noteq> Some False \<and> fileAt fs (backupPath opts) = None
            then putFile fs (backupPath opts) f else fs)"
    by (rule backup_step [OF w(4) w(1)])
  have fs': "fs' = putFile fs1 (finalOutputPath opts) \<lparr>content = patchedBuffer, mode = 493\<rparr>"
    by (rule writeFile_chmod [OF w(6) w(7)])
  with w(8) have vb: "verifyBuffer = patchedBuffer"
    by (auto simp: readFile_def fileAt_putFile split: if_splits)
  have sel: "run_success res = allVerified" "patchedCount res = Some totalPatched"
    "run_outputPath res = Some (finalOutputPath opts)"
    by (subst w(10), simp)+
  show ?thesis
    by (rule that [OF w(1,2,3) fs1 _ fs']) (simp_all add: sel w(5) w(9) [unfolded vb])
qed

lemma foldl_copy_unchanged:
  "k < length b \<Longrightarrow> \<forall>i \<in> set poss. \<not> covers i s k \<Longrightarrow>
     foldl (\<lambda>b pos. copy s b pos) b poss ! k = b ! k"
proof (induction poss arbitrary: b)
  case Nil
  then show ?case by simp
next
  case (Cons i poss)
  have "foldl (\<lambda>b pos. copy s b pos) (copy s b i) poss ! k = copy s b i ! k"
    using Cons.prems by (intro Cons.IH) (simp_all add: length_copy)
  also have "\<dots> = b ! k"
    using Cons.prems by (auto simp: nth_copy covers_def)
  finally show ?case by simp
qed

lemma foldl_copy_written:
  "k < length b \<Longrightarrow> \<exists>i \<in> set poss. covers i s k \<Longrightarrow>
   \<forall>i \<in> set poss. covers i s k \<longrightarrow> s ! (k - i) = v \<Longrightarrow>
     foldl (\<lambda>b pos. copy s b pos) b poss ! k = v"
proof (induction poss arbitrary: b)
  case Nil
  then show ?case by simp
next
  case (Cons i poss)
  show ?case
  proof (cases "\<exists>j \<in> set poss. covers j s k")
    case True
    with Cons.prems have "foldl (\<lambda>b pos. copy s b pos) (copy s b i) poss ! k = v"
      by (intro Cons.IH) (simp_all add: length_copy)
    then show ?thesis by simp
  next
    case False
    with Cons.prems(2) have ci: "covers i s k" by auto
    with Cons.prems(3) have v: "s ! (k - i) = v" by simp
    from False have "foldl (\<lambda>b pos. copy s b pos) (copy s b i) poss ! k = copy s b i ! k"
      using Cons.prems(1) by (intro foldl_copy_unchanged) (simp_all add: length_copy)
    also have "\<dots> = v"
      using Cons.prems(1) ci v by (simp add: nth_copy covers_def)
    finally show ?thesis by simp
  qed
qed

lemma applyPatches_unchanged:
  "k < length b \<Longrightarrow> \<forall>p \<in> set ps. \<forall>i. writesAt rs p i \<longrightarrow> \<not> covers i (replacement p) k \<Longrightarrow>
     fst (applyPatches rs ps (b, n)) ! k = b ! k"
proof (induction ps arbitrary: b n)
  case Nil
  then show ?case by simp
next
  case (Cons p ps)
  have tl: "\<forall>q \<in> set ps. \<forall>i. writesAt rs q i \<longrightarrow> \<not> covers i (replacement q) k"
    using Cons.prems(2) by simp
  show ?case
  proof (cases "find (\<lambda>r. result_name r = name p) rs")
    case None
    with Cons.IH [OF Cons.prems(1) tl] show ?thesis by simp
  next
    case (Some r)
    show ?thesis
    proof (cases "positions r")
      case None
      with Some Cons.IH [OF Cons.prems(1) tl] show ?thesis by simp
    next
      case poss: (Some poss)
      let ?b = "foldl (\<lambda>b pos. copy (replacement p) b pos) b poss"
      from Some poss Cons.prems(2) have "\<forall>i \<in> set poss. \<not> covers i (replacement p) k"
        by (simp add: writesAt_def)
      from foldl_copy_unchanged [OF Cons.prems(1) this] have hd: "?b ! k = b ! k" .
      have "k < length ?b" using Cons.prems(1) by (simp add: length_foldl_copy)
      from Cons.IH [OF this tl, of "n + length poss"] hd Some poss show ?thesis by simp
    qed
  qed
qed

lemma applyPatches_written:
  "k < length b \<Longrightarrow> \<exists>p \<in> set ps. \<exists>i. writesAt rs p i \<and> covers i (replacement p) k \<Longrightarrow>
   \<forall>p \<in> set ps. \<forall>i. writesAt rs p i \<and> covers i (replacement p) k \<longrightarrow> replacement p ! (k - i) = v \<Longrightarrow>
     fst (applyPatches rs ps (b, n)) ! k = v"
proof (induction ps arbitrary: b n)
  case Nil
  then show ?case by simp
next
  case (Cons p ps)
  define b' where "b' =
    (case find (\<lambda>r. result_name r = name p) rs of
       None \<Rightarrow> b
     | Some r \<Rightarrow> (case positions r of None \<Rightarrow> b
                   | Some poss \<Rightarrow> foldl (\<lambda>b pos. copy (replacement p) b pos) b poss))"
  have step: "\<exists>m. fst (applyPatches rs (p # ps) (b, n)) = fst (applyPatches rs ps (b', m))"
    by (auto simp: b'_def split: option.splits)
  have len: "k < length b'"
    using Cons.prems(1) by (auto simp: b'_def length_foldl_copy split: option.splits)
  have agree: "\<forall>q \<in> set ps. \<forall>i. writesAt rs q i \<and> covers i (replacement q) k \<longrightarrow> replacement q ! (k - i) = v"
    using Cons.prems(3) by simp
  show ?case
  proof (cases "\<exists>q \<in> set ps. \<exists>i. writesAt rs q i \<and> covers i (replacement q) k")
    case True
    from step obtain m where "fst (applyPatches rs (p # ps) (b, n)) = fst (applyPatches rs ps (b', m))" ..
    with Cons.IH [OF len True agree, of m] show ?thesis by simp
  next
    case False
    with Cons.prems(2) obtain i where i: "writesAt rs p i" "covers i (replacement p) k" by auto
    from i(1) obtain r poss where r: "find (\<lambda>r. result_name r = name p) rs = Some r"
      "positions r = Some poss" "i \<in> set poss"
      by (auto simp: writesAt_def split: option.splits)
    have b': "b' = foldl (\<lambda>b pos. copy (replacement p) b pos) b poss"
      by (simp add: b'_def r)
    have ex: "\<exists>i \<in> set poss. covers i (replacement p) k" using r(3) i(2) by blast
    have all: "\<forall>i \<in> set poss. covers i (replacement p) k \<longrightarrow> replacement p ! (k - i) = v"
      using Cons.prems(3) r by (simp add: writesAt_def)
    from foldl_copy_written [OF Cons.prems(1) ex all] b' have hd: "b' ! k = v" by simp
    from False have "\<forall>q \<in> set ps. \<forall>i. writesAt rs q i \<longrightarrow> \<not> covers i (replacement q) k" by blast
    from applyPatches_unchanged [OF len this] hd step show ?thesis by auto
  qed
qed

lemma checkPatch_Some:
  assumes "checkPatch buffer p = Some r"
  shows "result_name r = name p
     \<and> (\<exists>ps. findAllPositions buffer (pattern p) = Some ps
              \<and> positions r = (if ps = [] then None else Some ps))"
proof (cases "findAllPositions buffer (pattern p)")
  case None
  with assms show ?thesis by (simp add: checkPatch_def)
next
  case (Some poss)
  show ?thesis
  proof (cases "poss = []")
    case False
    with assms Some have "r = \<lparr>result_name = name p, found = length poss,
        positions = Some poss, success = True, alreadyPatched = None\<rparr>"
      by (simp add: checkPatch_def)
    with Some False show ?thesis by simp
  next
    case True
    show ?thesis
    proof (cases "findAllPositions buffer (replacement p)")
      case None
      with assms Some True show ?thesis by (simp add: checkPatch_def Let_def)
    next
      case rp: (Some rp)
      with assms Some True have "result_name r = name p \<and> positions r = None"
        by (cases "rp = []") (auto simp: checkPatch_def Let_def)
      with Some True show ?thesis by simp
    qed
  qed
qed

lemma checkPatches_find:
  "checkPatches buffer ps = Some rs \<Longrightarrow> distinct (map name ps) \<Longrightarrow> p \<in> set ps \<Longrightarrow>
     \<exists>r. checkPatch buffer p = Some r \<and> find (\<lambda>r. result_name r = name p) rs = Some r"
proof (induction ps arbitrary: rs)
  case Nil
  then show ?case by simp
next
  case (Cons q qs)
  from Cons.prems(1) obtain r0 rs0 where r0: "checkPatch buffer q = Some r0"
    and rs0: "checkPatches buffer qs = Some rs0" and rs: "rs = r0 # rs0"
    by (auto split: option.splits)
  from checkPatch_Some [OF r0] have n0: "result_name r0 = name q" by simp
  show ?case
  proof (cases "p = q")
    case True
    with r0 rs n0 show ?thesis by simp
  next
    case False
    with Cons.prems(3) have mem: "p \<in> set qs" by simp
    with Cons.prems(2) have "name q \<noteq> name p" by auto
    moreover from Cons.prems(2) have "distinct (map name qs)" by simp
    from Cons.IH [OF rs0 this mem] obtain r where
      "checkPatch buffer p = Some r" "find (\<lambda>r. result_name r = name p) rs0 = Some r" by blast
    ultimately show ?thesis using rs n0 by simp
  qed
qed

lemma writesAt_recorded:
  assumes "checkPatches buffer ps = Some rs" "distinct (map name ps)" "p \<in> set ps"
  shows "writesAt rs p i \<longleftrightarrow> recorded buffer p i"
proof -
  from checkPatches_find [OF assms] obtain r where
    r: "checkPatch buffer p = Some r" "find (\<lambda>r. result_name r = name p) rs = Some r" by blast
  from checkPatch_Some [OF r(1)] obtain poss where
    "findAllPositions buffer (pattern p) = Some poss"
    "positions r = (if poss = [] then None else Some poss)" by blast
  with r(2) show ?thesis by (auto simp: writesAt_def recorded_def)
qed

lemma recorded_occursAt: "recorded buffer p i \<Longrightarrow> occursAt buffer (pattern p) i"
proof -
  assume a: "recorded buffer p i"
  then obtain poss where poss: "findAllPositions buffer (pattern p) = Some poss" "i \<in> set poss"
    by (auto simp: recorded_def split: option.splits)
  from findAllPositions_Some_nonempty [OF poss(1)] have "pattern p \<noteq> []" .
  from findAllPositions_spec [OF this, of buffer] poss show ?thesis by auto
qed

lemma recorded_same_patch_apart:
  assumes "recorded buffer p i" "recorded buffer p j" "i \<noteq> j"
  shows "i + length (pattern p) \<le> j \<or> j + length (pattern p) \<le> i"
proof -
  from assms(1,2) obtain poss where poss: "findAllPositions buffer (pattern p) = Some poss"
    "i \<in> set poss" "j \<in> set poss"
    by (auto simp: recorded_def split: option.splits)
  from findAllPositions_Some_nonempty [OF poss(1)] have "pattern p \<noteq> []" .
  from findAllPositions_spec [OF this, of buffer] poss(1)
  have "sorted_wrt (\<lambda>a b. a + length (pattern p) \<le> b) poss" by auto
  then have "\<forall>a b. a < length poss \<and> b < length poss \<and> a < b \<longrightarrow>
      poss ! a + length (pattern p) \<le> poss ! b"
    by (simp add: sorted_wrt_iff_nth_less)
  moreover from poss(2,3) obtain a b where "a < length poss" "poss ! a = i"
    "b < length poss" "poss ! b = j" by (auto simp: in_set_conv_nth)
  moreover with assms(3) have "a < b \<or> b < a" by (cases a b rule: linorder_cases) auto
  ultimately show ?thesis by blast
qed

lemma applyPatches_bytes:
  assumes cp: "checkPatches buffer ps = Some rs"
    and names: "distinct (map name ps)"
    and eqlen: "\<forall>p \<in> set ps. length (replacement p) = length (pattern p)"
    and apart: "\<forall>p \<in> set ps. \<forall>q \<in> set ps. p \<noteq> q \<longrightarrow>
        (\<forall>i j. recorded buffer p i \<and> recorded buffer q j \<longrightarrow>
           i + length (pattern p) \<le> j \<or> j + length (pattern q) \<le> i)"
  shows "(\<forall>p \<in> set ps. \<forall>i. recorded buffer p i \<longrightarrow>
            take (length (replacement p)) (drop i (fst (applyPatches rs ps (buffer, n)))) = replacement p)
       \<and> (\<forall>k < length buffer.
            (\<forall>p \<in> set ps. \<forall>i. recorded buffer p i \<longrightarrow> \<not> covers i (replacement p) k) \<longrightarrow>
            fst (applyPatches rs ps (buffer, n)) ! k = buffer ! k)"
proof (intro conjI ballI allI impI)
  let ?out = "fst (applyPatches rs ps (buffer, n))"
  have len: "length ?out = length buffer" by (rule length_applyPatches)
  {
    fix k
    assume k: "k < length buffer"
      and free: "\<forall>p \<in> set ps. \<forall>i. recorded buffer p i \<longrightarrow> \<not> covers i (replacement p) k"
    have "\<forall>p \<in> set ps. \<forall>i. writesAt rs p i \<longrightarrow> \<not> covers i (replacement p) k"
      using free writesAt_recorded [OF cp names] by blast
    from applyPatches_unchanged [OF k this] show "?out ! k = buffer ! k" .
  }
  fix p i
  assume p: "p \<in> set ps" and i: "recorded buffer p i"
  from recorded_occursAt [OF i] eqlen p
  have inb: "i + length (replacement p) \<le> length buffer" by (simp add: occursAt_def)
  have byte: "?out ! (i + d) = replacement p ! d" if d: "d < length (replacement p)" for d
  proof -
    from d inb have k: "i + d < length buffer" by simp
    have here: "writesAt rs p i \<and> covers i (replacement p) (i + d)"
      using i d writesAt_recorded [OF cp names p] by (simp add: covers_def)
    have only: "replacement q ! (i + d - j) = replacement p ! d"
      if q: "q \<in> set ps" and j: "writesAt rs q j" "covers j (replacement q) (i + d)" for q j
    proof -
      from j(1) q have rj: "recorded buffer q j" using writesAt_recorded [OF cp names q] by simp
      have lp: "length (replacement p) = length (pattern p)"
        and lq: "length (replacement q) = length (pattern q)" using eqlen p q by auto
      have same: "q = p"
      proof (rule ccontr)
        assume "q \<noteq> p"
        with apart p q i rj
        have "i + length (pattern p) \<le> j \<or> j + length (pattern q) \<le> i" by blast
        with d j(2) lp lq show False by (auto simp: covers_def)
      qed
      have "j = i"
      proof (rule ccontr)
        assume "j \<noteq> i"
        with recorded_same_patch_apart [OF rj [unfolded same] i]
        have "j + length (pattern p) \<le> i \<or> i + length (pattern p) \<le> j" by simp
        with d j(2) lp same show False by (auto simp: covers_def)
      qed
      with same show ?thesis by simp
    qed
    show ?thesis
      by (rule applyPatches_written [OF k]) (use here p only in blast)+
  qed
  show "take (length (replacement p)) (drop i ?out) = replacement p"
  proof (rule nth_equalityI)
    show "length (take (length (replacement p)) (drop i ?out)) = length (replacement p)"
      using inb len by simp
  next
    fix d assume "d < length (take (length (replacement p)) (drop i ?out))"
    then have d: "d < length (replacement p)" by simp
    with inb len byte [OF d] show "take (length (replacement p)) (drop i ?out) ! d = replacement p ! d"
      by simp
  qed
qed

lemma checkPatch_found:
  assumes ne: "pattern p \<noteq> []" and occ: "occursIn buffer (pattern p)"
  shows "\<exists>ps. ps \<noteq> [] \<and> findAllPositions buffer (pattern p) = Some ps
            \<and> checkPatch buffer p =
                Some \<lparr>result_name = name p, found = length ps, positions = Some ps,
                      success = True, alreadyPatched = None\<rparr>"
proof -
  from findAllPositions_spec [OF ne, of buffer]
  obtain ps where ps: "findAllPositions buffer (pattern p) = Some ps" by blast
  with findAllPositions_Nil_iff [OF ne, of buffer] occ have "ps \<noteq> []" by auto
  with ps show ?thesis by (simp add: checkPatch_def)
qed

lemma checkPatch_absent:
  assumes repl: "replacement p \<noteq> []" and absent: "\<not> occursIn buffer (pattern p)"
  shows "checkPatch buffer p =
           Some \<lparr>result_name = name p, found = 0, positions = None,
                 success = occursIn buffer (replacement p),
                 alreadyPatched = Some (occursIn buffer (replacement p))\<rparr>"
proof -
  from absent have ne: "pattern p \<noteq> []" using occursIn_empty by auto
  from findAllPositions_Nil_iff [OF ne, of buffer] absent
  have scan: "findAllPositions buffer (pattern p) = Some []" by simp
  from findAllPositions_spec [OF repl, of buffer]
  obtain rp where rp: "findAllPositions buffer (replacement p) = Some rp" by blast
  from findAllPositions_Nil_iff [OF repl, of buffer] rp
  have "0 < length rp \<longleftrightarrow> occursIn buffer (replacement p)" by auto
  with scan rp show ?thesis
    by (auto simp: checkPatch_def Let_def includes_buf_iff)
qed

lemma checkPatch_scannable:
  assumes "pattern p \<noteq> []" "replacement p \<noteq> [] \<or> occursIn buffer (pattern p)"
  shows "\<exists>r. checkPatch buffer p = Some r
            \<and> (0 < found r \<and> \<not> truthy (alreadyPatched r) \<longleftrightarrow> occursIn buffer (pattern p))
            \<and> (success r \<or> truthy (alreadyPatched r) \<longleftrightarrow>
                 occursIn buffer (pattern p) \<or> occursIn buffer (replacement p))"
proof (cases "occursIn buffer (pattern p)")
  case True
  from checkPatch_found [OF assms(1) True] obtain ps where "ps \<noteq> []"
    "checkPatch buffer p = Some \<lparr>result_name = name p, found = length ps, positions = Some ps,
        success = True, alreadyPatched = None\<rparr>" by blast
  with True show ?thesis by (simp add: truthy_def)
next
  case False
  with assms(2) have "replacement p \<noteq> []" by simp
  from checkPatch_absent [OF this False] False show ?thesis by (simp add: truthy_def)
qed

lemma checkPatches_Some_map:
  "checkPatches buffer ps = Some rs \<Longrightarrow>
     rs = map (\<lambda>p. the (checkPatch buffer p)) ps \<and> (\<forall>p \<in> set ps. checkPatch buffer p \<noteq> None)"
  by (induction ps arbitrary: rs) (auto split: option.splits)

lemma checkPatches_map:
  "\<forall>p \<in> set ps. checkPatch buffer p \<noteq> None \<Longrightarrow>
     checkPatches buffer ps = Some (map (\<lambda>p. the (checkPatch buffer p)) ps)"
  by (induction ps) auto



section \<open>The claims\<close>

text \<open>
  C4. For a non-empty pattern the scan returns the left-to-right non-overlapping occurrences:
  every returned offset starts an exact match; the offsets increase strictly, and any two
  of them are at least the length of the pattern apart; and an occurrence that is not
  returned starts inside a returned one, after its first byte, which is why it was skipped:
  the search resumed at the end of that match.
\<close>

theorem findAllPositions_nonoverlapping:
  assumes "pat \<noteq> []"
  shows "\<exists>ps. findAllPositions buffer pat = Some ps
            \<and> (\<forall>p \<in> set ps. occursAt buffer pat p)
            \<and> sorted_wrt (<) ps
            \<and> sorted_wrt (\<lambda>p q. p + length pat \<le> q) ps
            \<and> (\<forall>q. occursAt buffer pat q \<longrightarrow>
                   q \<in> set ps \<or> (\<exists>p \<in> set ps. p < q \<and> q < p + length pat))"
proof -
  from findAllPositions_spec [OF assms, of buffer]
  obtain ps where ps: "findAllPositions buffer pat = Some ps"
    "\<forall>p \<in> set ps. occursAt buffer pat p"
    "sorted_wrt (\<lambda>p q. p + length pat \<le> q) ps"
    "\<forall>q. occursAt buffer pat q \<longrightarrow> (\<exists>p \<in> set ps. p \<le> q \<and> q < p + length pat)"
    by blast
  have "q \<in> set ps \<or> (\<exists>p \<in> set ps. p < q \<and> q < p + length pat)"
    if "occursAt buffer pat q" for q
  proof -
    from ps(4) that obtain p where p: "p \<in> set ps" "p \<le> q" "q < p + length pat" by blast
    show ?thesis
    proof (cases "p = q")
      case True
      with p(1) show ?thesis by simp
    next
      case False
      with p have "p < q" by simp
      with p show ?thesis by blast
    qed
  qed
  with ps sorted_wrt_gap_strict [OF assms ps(3)] show ?thesis by blast
qed

text \<open>
  The theorem at a pattern that overlaps itself: \<open>aa\<close> stands at the offsets 0, 1, 2 and 3
  of \<open>aaaaa\<close>; the scan returns 0 and 2.
\<close>

theorem findAllPositions_nonoverlapping_witness:
  "''aa'' \<noteq> ([] :: buffer)
   \<and> findAllPositions ''aaaaa'' ''aa'' = Some [0, 2]
   \<and> occursAt ''aaaaa'' ''aa'' 0 \<and> occursAt ''aaaaa'' ''aa'' 2
   \<and> sorted_wrt (<) [0, 2 :: nat]
   \<and> sorted_wrt (\<lambda>p q. p + length ''aa'' \<le> q) [0, 2 :: nat]
   \<and> occursAt ''aaaaa'' ''aa'' 1 \<and> (0 :: nat) < 1 \<and> (1 :: nat) < 0 + length ''aa''"
proof -
  have ne: "''aa'' \<noteq> ([] :: buffer)" by simp
  have run: "findAllPositions ''aaaaa'' ''aa'' = Some [0, 2]" by code_simp
  have occ: "occursAt ''aaaaa'' ''aa'' 1" by (simp add: occursAt_def)
  from findAllPositions_nonoverlapping [OF ne, of "''aaaaa''"] run ne occ
  show ?thesis by simp
qed

text \<open>
  C10. For a non-empty pattern the scan ends and returns its list of positions. The
  pattern has to be non-empty: the cursor moves on by the length of the pattern after
  each match, and on the empty pattern, which \<open>indexOf\<close> finds wherever it is asked to
  look, the loop never leaves.
\<close>

theorem findAllPositions_terminates:
  "(pat \<noteq> [] \<longrightarrow> (\<exists>ps. findAllPositions buffer pat = Some ps))
   \<and> findAllPositions buffer [] = None"
  using findAllPositions_spec [of pat buffer] findAllPositions_empty [of buffer] by blast

theorem findAllPositions_terminates_witness:
  "''isCustom:!0'' \<noteq> ([] :: buffer)
   \<and> (\<exists>ps. findAllPositions ''xxisCustom:!0yyisCustom:!0zz'' ''isCustom:!0'' = Some ps)
   \<and> findAllPositions ''xxisCustom:!0yyisCustom:!0zz'' [] = None"
  using findAllPositions_terminates [of "''isCustom:!0''" "''xxisCustom:!0yyisCustom:!0zz''"]
  by simp

text \<open>
  C9, as stated: a patch whose replacement is not as long as its pattern changes the size
  of the file. It does not: \<open>copy\<close> writes into the buffer it is given and never resizes
  it. With the pattern \<open>b\<close> and the replacement \<open>XY\<close> the three bytes \<open>abc\<close> become the
  three bytes \<open>aXY\<close>; the second byte of the replacement has gone over the \<open>c\<close>.
\<close>

theorem unequal_length_changes_size_counterexample:
  "\<exists>fs'. patchDroid \<lparr>inputPath = ''droid'', outputPath = None,
                      patches = [\<lparr>name = ''n'', description = ''d'', pattern = ''b'', replacement = ''XY''\<rparr>],
                      dryRun = None, backup = None, verbose = None\<rparr>
                    \<lparr>resolve = (\<lambda>p. p), files = [''droid'' \<mapsto> \<lparr>content = ''abc'', mode = 493\<rparr>]\<rparr>
           = Some (Inr \<lparr>run_success = True, run_dryRun = None, run_outputPath = Some ''droid.patched'',
                        results = [\<lparr>result_name = ''n'', found = 1, positions = Some [1],
                                    success = True, alreadyPatched = None\<rparr>],
                        noPatchNeeded = None, patchedCount = Some 1\<rparr>, fs')
         \<and> fileAt fs' ''droid.patched'' = Some \<lparr>content = ''aXY'', mode = 493\<rparr>
         \<and> length ''b'' \<noteq> length ''XY''
         \<and> length ''aXY'' = length ''abc''"
  (is "\<exists>fs'. patchDroid ?opts ?fs = Some (Inr ?res, fs') \<and> _ \<and> _ \<and> _")
proof -
  have r: "map_option fst (patchDroid ?opts ?fs) = Some (Inr ?res)" by code_simp
  have o: "map_option (\<lambda>(r, d). fileAt d ''droid.patched'') (patchDroid ?opts ?fs)
             = Some (Some \<lparr>content = ''aXY'', mode = 493\<rparr>)" by code_simp
  from r o obtain fs' where "patchDroid ?opts ?fs = Some (Inr ?res, fs')"
    "fileAt fs' ''droid.patched'' = Some \<lparr>content = ''aXY'', mode = 493\<rparr>"
    by (cases "patchDroid ?opts ?fs") auto
  then show ?thesis by auto
qed

text \<open>
  C9, amended: whatever the lengths of the patterns and the replacements, the file a live
  run writes is as long as the input file.
\<close>

theorem output_length_is_input_length:
  assumes run: "patchDroid opts fs = Some (Inr res, fs')"
    and live: "dryRun opts \<noteq> Some True"
    and needed: "\<exists>r \<in> set (results res). 0 < found r \<and> \<not> truthy (alreadyPatched r)"
  shows "\<exists>f out. fileAt fs (inputPath opts) = Some f \<and> fileAt fs' (finalOutputPath opts) = Some out
           \<and> length (content out) = length (content f)"
proof -
  from patchDroid_written [OF assms]
  obtain f fs1 patchedBuffer where w: "fileAt fs (inputPath opts) = Some f"
    "applyPatches (results res) (patches opts) (content f, 0) = (patchedBuffer, the (patchedCount res))"
    "fs' = putFile fs1 (finalOutputPath opts) \<lparr>content = patchedBuffer, mode = 493\<rparr>"
    by blast
  from length_applyPatches [of "results res" "patches opts" "content f" 0] w(2)
  have "length patchedBuffer = length (content f)" by simp
  with w(1,3) show ?thesis by simp
qed

text \<open>The theorem at a replacement shorter than its pattern: \<open>abcd\<close> becomes \<open>aXcd\<close>.\<close>

theorem output_length_is_input_length_witness:
  "\<exists>fs'. patchDroid \<lparr>inputPath = ''droid'', outputPath = None,
                      patches = [\<lparr>name = ''n'', description = ''d'', pattern = ''bc'', replacement = ''X''\<rparr>],
                      dryRun = None, backup = None, verbose = None\<rparr>
                    \<lparr>resolve = (\<lambda>p. p), files = [''droid'' \<mapsto> \<lparr>content = ''abcd'', mode = 493\<rparr>]\<rparr>
           = Some (Inr \<lparr>run_success = True, run_dryRun = None, run_outputPath = Some ''droid.patched'',
                        results = [\<lparr>result_name = ''n'', found = 1, positions = Some [1],
                                    success = True, alreadyPatched = None\<rparr>],
                        noPatchNeeded = None, patchedCount = Some 1\<rparr>, fs')
         \<and> fileAt fs' ''droid.patched'' = Some \<lparr>content = ''aXcd'', mode = 493\<rparr>
         \<and> length ''aXcd'' = length ''abcd''"
  (is "\<exists>fs'. patchDroid ?opts ?fs = Some (Inr ?res, fs') \<and> _ \<and> _")
proof -
  have r: "map_option fst (patchDroid ?opts ?fs) = Some (Inr ?res)" by code_simp
  have o: "map_option (\<lambda>(r, d). fileAt d ''droid.patched'') (patchDroid ?opts ?fs)
             = Some (Some \<lparr>content = ''aXcd'', mode = 493\<rparr>)" by code_simp
  from r o obtain fs' where fs': "patchDroid ?opts ?fs = Some (Inr ?res, fs')"
    "fileAt fs' ''droid.patched'' = Some \<lparr>content = ''aXcd'', mode = 493\<rparr>"
    by (cases "patchDroid ?opts ?fs") auto
  have live: "dryRun ?opts \<noteq> Some True" by simp
  have needed: "\<exists>r \<in> set (results ?res). 0 < found r \<and> \<not> truthy (alreadyPatched r)"
    by (simp add: truthy_def)
  from output_length_is_input_length [OF fs'(1) live needed] fs'(2)
  have "length ''aXcd'' = length ''abcd''" by (simp add: finalOutputPath_def)
  with fs' show ?thesis by blast
qed

text \<open>
  C7. When the input path names no file, or a file the process may not read, the call
  ends in an error: \<open>Binary not found\<close> from the check at the top, or the error of
  \<open>readFile\<close>. There is no result object, and the disk is as it was. Nothing was scanned:
  the patches do not matter, not even one with an empty pattern, whose scan would never end.
\<close>

theorem missing_input_fails:
  assumes "fileAt fs (inputPath opts) = None \<or> (\<exists>f. fileAt fs (inputPath opts) = Some f \<and> \<not> readable f)"
  shows "patchDroid opts fs =
           Some (Inl (if fileAt fs (inputPath opts) = None
                      then Error (''Binary not found: '' @ inputPath opts)
                      else EACCES (inputPath opts)), fs)"
  using assms
  by (auto simp: patchDroid_def Let_def existsSync_def stat_def readFile_def)

theorem missing_input_fails_witness:
  "patchDroid \<lparr>inputPath = ''droid'', outputPath = None,
               patches = [\<lparr>name = ''n'', description = ''d'', pattern = [], replacement = []\<rparr>],
               dryRun = None, backup = None, verbose = None\<rparr>
     \<lparr>resolve = (\<lambda>p. p), files = Map.empty\<rparr>
       = Some (Inl (Error ''Binary not found: droid''),
               \<lparr>resolve = (\<lambda>p. p), files = Map.empty\<rparr>)
   \<and> patchDroid \<lparr>inputPath = ''droid'', outputPath = None,
               patches = [\<lparr>name = ''n'', description = ''d'', pattern = [], replacement = []\<rparr>],
               dryRun = None, backup = None, verbose = None\<rparr>
     \<lparr>resolve = (\<lambda>p. p), files = [''droid'' \<mapsto> \<lparr>content = ''abc'', mode = 73\<rparr>]\<rparr>
       = Some (Inl (EACCES ''droid''), \<lparr>resolve = (\<lambda>p. p), files = [''droid'' \<mapsto> \<lparr>content = ''abc'', mode = 73\<rparr>]\<rparr>)"
  using missing_input_fails [of "\<lparr>resolve = (\<lambda>p. p), files = Map.empty\<rparr>" "\<lparr>inputPath = ''droid'', outputPath = None,
               patches = [\<lparr>name = ''n'', description = ''d'', pattern = [], replacement = []\<rparr>],
               dryRun = None, backup = None, verbose = None\<rparr>"]
    missing_input_fails [of "\<lparr>resolve = (\<lambda>p. p), files = [''droid'' \<mapsto> \<lparr>content = ''abc'', mode = 73\<rparr>]\<rparr>"
      "\<lparr>inputPath = ''droid'', outputPath = None,
               patches = [\<lparr>name = ''n'', description = ''d'', pattern = [], replacement = []\<rparr>],
               dryRun = None, backup = None, verbose = None\<rparr>"]
  by (simp add: readable_def fileAt_def)

text \<open>
  C3, as stated, covers every patch whose pattern does not occur. A patch with an empty
  replacement is one of them, and the empty byte sequence occurs in every buffer
  (\<open>buffer.includes\<close> says so too); but the scan for the replacement that follows never
  ends on it, so the patch gets no result at all.
\<close>

theorem pattern_absent_counterexample:
  "\<not> occursIn ''abc'' ''x'' \<and> occursIn ''abc'' [] \<and> includes_buf ''abc'' []
   \<and> checkPatch ''abc'' \<lparr>name = ''n'', description = ''d'', pattern = ''x'', replacement = []\<rparr>
       = None"
proof -
  have a: "findAllPositions ''abc'' ''x'' = Some []" by code_simp
  have "''x'' \<noteq> ([] :: buffer)" by simp
  from findAllPositions_Nil_iff [OF this, of "''abc''"] a have "\<not> occursIn ''abc'' ''x''"
    by simp
  moreover have "occursIn ''abc'' []" by (rule occursIn_empty)
  moreover have "includes_buf ''abc'' []" by (simp add: includes_buf_iff occursIn_empty)
  moreover have "checkPatch ''abc''
      \<lparr>name = ''n'', description = ''d'', pattern = ''x'', replacement = []\<rparr> = None"
    by (simp add: checkPatch_def a findAllPositions_empty Let_def)
  ultimately show ?thesis by blast
qed

text \<open>
  C3, amended: for a patch with a non-empty replacement whose pattern does not occur in
  the buffer, the scan phase produces a result (it has no way to throw) with no
  occurrences found, and \<open>success\<close> and \<open>alreadyPatched\<close> are both true when the
  replacement occurs in the buffer and both false when it does not.
\<close>

theorem pattern_absent_result:
  assumes repl: "replacement p \<noteq> []" and absent: "\<not> occursIn buffer (pattern p)"
  shows "checkPatch buffer p =
           Some \<lparr>result_name = name p, found = 0, positions = None,
                 success = occursIn buffer (replacement p),
                 alreadyPatched = Some (occursIn buffer (replacement p))\<rparr>"
proof -
  from absent have ne: "pattern p \<noteq> []" using occursIn_empty by auto
  from findAllPositions_Nil_iff [OF ne, of buffer] absent
  have scan: "findAllPositions buffer (pattern p) = Some []" by simp
  from findAllPositions_spec [OF repl, of buffer]
  obtain rp where rp: "findAllPositions buffer (replacement p) = Some rp" by blast
  from findAllPositions_Nil_iff [OF repl, of buffer] rp
  have "0 < length rp \<longleftrightarrow> occursIn buffer (replacement p)" by auto
  with scan rp show ?thesis
    by (auto simp: checkPatch_def Let_def includes_buf_iff)
qed

theorem pattern_absent_result_witness:
  "replacement \<lparr>name = ''isCustom'', description = ''Change isCustom:!0 to isCustom:!1'',
                 pattern = ''isCustom:!0'', replacement = ''isCustom:!1''\<rparr> \<noteq> []
   \<and> \<not> occursIn ''xxisCustom:!1yyisCustom:!1zz'' ''isCustom:!0''
   \<and> occursIn ''xxisCustom:!1yyisCustom:!1zz'' ''isCustom:!1''
   \<and> checkPatch ''xxisCustom:!1yyisCustom:!1zz''
        \<lparr>name = ''isCustom'', description = ''Change isCustom:!0 to isCustom:!1'',
          pattern = ''isCustom:!0'', replacement = ''isCustom:!1''\<rparr>
      = Some \<lparr>result_name = ''isCustom'', found = 0, positions = None, success = True,
              alreadyPatched = Some True\<rparr>"
  (is "replacement ?p \<noteq> [] \<and> \<not> occursIn ?b _ \<and> _ \<and> _")
proof -
  have repl: "replacement ?p \<noteq> []" by simp
  have a: "findAllPositions ?b ''isCustom:!0'' = Some []" by code_simp
  have "''isCustom:!0'' \<noteq> ([] :: buffer)" by simp
  from findAllPositions_Nil_iff [OF this, of ?b] a
  have absent: "\<not> occursIn ?b (pattern ?p)" by simp
  have occ: "occursIn ?b ''isCustom:!1''"
    unfolding occursIn_def occursAt_def by (intro exI [of _ 2]) simp
  from pattern_absent_result [OF repl absent] occ repl absent show ?thesis by simp
qed

text \<open>
  C1, as stated, speaks of every list of equal-length patches whose occurrences do not
  overlap. The "Apply patches" loop finds the positions of a patch by its name, so of two
  patches with one name the second is written at the positions of the first: below, \<open>Q\<close>
  goes to offset 1, over the \<open>P\<close> just written there, and the \<open>Y\<close> recorded at offset 3
  stays.
\<close>

theorem patched_output_bytes_counterexample:
  "\<exists>fs'. patchDroid \<lparr>inputPath = ''droid'', outputPath = None,
                      patches = [\<lparr>name = ''n'', description = ''d'', pattern = ''X'', replacement = ''P''\<rparr>,
                                 \<lparr>name = ''n'', description = ''d'', pattern = ''Y'', replacement = ''Q''\<rparr>],
                      dryRun = None, backup = None, verbose = None\<rparr>
                    \<lparr>resolve = (\<lambda>p. p), files = [''droid'' \<mapsto> \<lparr>content = ''aXbY'', mode = 493\<rparr>]\<rparr>
           = Some (Inr \<lparr>run_success = False, run_dryRun = None, run_outputPath = Some ''droid.patched'',
                        results = [\<lparr>result_name = ''n'', found = 1, positions = Some [1],
                                    success = True, alreadyPatched = None\<rparr>,
                                   \<lparr>result_name = ''n'', found = 1, positions = Some [3],
                                    success = True, alreadyPatched = None\<rparr>],
                        noPatchNeeded = None, patchedCount = Some 2\<rparr>, fs')
         \<and> fileAt fs' ''droid.patched'' = Some \<lparr>content = ''aQbY'', mode = 493\<rparr>
         \<and> recorded ''aXbY'' \<lparr>name = ''n'', description = ''d'', pattern = ''Y'', replacement = ''Q''\<rparr> 3
         \<and> take (length ''Q'') (drop 3 ''aQbY'') \<noteq> ''Q''"
  (is "\<exists>fs'. patchDroid ?opts ?fs = Some (Inr ?res, fs') \<and> _ \<and> _ \<and> _")
proof -
  have r: "map_option fst (patchDroid ?opts ?fs) = Some (Inr ?res)" by code_simp
  have o: "map_option (\<lambda>(r, d). fileAt d ''droid.patched'') (patchDroid ?opts ?fs)
             = Some (Some \<lparr>content = ''aQbY'', mode = 493\<rparr>)" by code_simp
  from r o obtain fs' where "patchDroid ?opts ?fs = Some (Inr ?res, fs')"
    "fileAt fs' ''droid.patched'' = Some \<lparr>content = ''aQbY'', mode = 493\<rparr>"
    by (cases "patchDroid ?opts ?fs") auto
  moreover have "recorded ''aXbY''
      \<lparr>name = ''n'', description = ''d'', pattern = ''Y'', replacement = ''Q''\<rparr> 3"
    by code_simp
  moreover have "take (length ''Q'') (drop 3 ''aQbY'') \<noteq> ''Q''" by simp
  ultimately show ?thesis by blast
qed

text \<open>
  C1, amended: for patches with pairwise distinct names, replacements as long as their
  patterns, and recorded occurrences of different patches that do not overlap, the file a
  live run writes is as long as the input; at every recorded position of every patch it
  holds the bytes of the replacement; and every byte outside those spans is the byte of
  the input. (Recorded positions of one patch never overlap, by C4.)
\<close>

theorem patched_output_bytes:
  assumes run: "patchDroid opts fs = Some (Inr res, fs')"
    and live: "dryRun opts \<noteq> Some True"
    and needed: "\<exists>r \<in> set (results res). 0 < found r \<and> \<not> truthy (alreadyPatched r)"
    and input: "fileAt fs (inputPath opts) = Some f"
    and names: "distinct (map name (patches opts))"
    and eqlen: "\<forall>p \<in> set (patches opts). length (replacement p) = length (pattern p)"
    and apart: "\<forall>p \<in> set (patches opts). \<forall>q \<in> set (patches opts). p \<noteq> q \<longrightarrow>
        (\<forall>i j. recorded (content f) p i \<and> recorded (content f) q j \<longrightarrow>
           i + length (pattern p) \<le> j \<or> j + length (pattern q) \<le> i)"
  shows "\<exists>out. fileAt fs' (finalOutputPath opts) = Some out
           \<and> length (content out) = length (content f)
           \<and> (\<forall>p \<in> set (patches opts). \<forall>i. recorded (content f) p i \<longrightarrow>
                 take (length (replacement p)) (drop i (content out)) = replacement p)
           \<and> (\<forall>k < length (content f).
                 (\<forall>p \<in> set (patches opts). \<forall>i. recorded (content f) p i \<longrightarrow>
                    \<not> covers i (replacement p) k) \<longrightarrow>
                 content out ! k = content f ! k)"
proof -
  from patchDroid_written [OF run live needed]
  obtain f0 fs1 patchedBuffer where w: "fileAt fs (inputPath opts) = Some f0"
    "checkPatches (content f0) (patches opts) = Some (results res)"
    "applyPatches (results res) (patches opts) (content f0, 0) = (patchedBuffer, the (patchedCount res))"
    "fs' = putFile fs1 (finalOutputPath opts) \<lparr>content = patchedBuffer, mode = 493\<rparr>"
    by blast
  from w(1) input have f0: "f0 = f" by simp
  have pb: "patchedBuffer = fst (applyPatches (results res) (patches opts) (content f, 0))"
    using w(3) f0 by simp
  have len: "length patchedBuffer = length (content f)"
    unfolding pb by (rule length_applyPatches)
  from applyPatches_bytes [OF w(2) [unfolded f0] names eqlen apart, of 0] pb len w(4)
  show ?thesis by simp
qed

text \<open>
  The theorem at the scenario of the specification: the pattern \<open>isCustom:!0\<close> is found at
  the offsets 2 and 15 and the written file is \<open>xxisCustom:!1yyisCustom:!1zz\<close>.
\<close>

theorem patched_output_bytes_witness:
  "\<exists>fs'. patchDroid \<lparr>inputPath = ''droid'', outputPath = None,
                      patches = [\<lparr>name = ''isCustom'', description = ''Change isCustom:!0 to isCustom:!1'',
                                  pattern = ''isCustom:!0'', replacement = ''isCustom:!1''\<rparr>],
                      dryRun = None, backup = None, verbose = None\<rparr>
                    \<lparr>resolve = (\<lambda>p. p), files = [''droid'' \<mapsto> \<lparr>content = ''xxisCustom:!0yyisCustom:!0zz'', mode = 493\<rparr>]\<rparr>
           = Some (Inr \<lparr>run_success = True, run_dryRun = None, run_outputPath = Some ''droid.patched'',
                        results = [\<lparr>result_name = ''isCustom'', found = 2, positions = Some [2, 15],
                                    success = True, alreadyPatched = None\<rparr>],
                        noPatchNeeded = None, patchedCount = Some 2\<rparr>, fs')
         \<and> fileAt fs' ''droid.patched'' = Some \<lparr>content = ''xxisCustom:!1yyisCustom:!1zz'', mode = 493\<rparr>
         \<and> take (length ''isCustom:!1'') (drop 2 ''xxisCustom:!1yyisCustom:!1zz'') = ''isCustom:!1''
         \<and> take (length ''isCustom:!1'') (drop 15 ''xxisCustom:!1yyisCustom:!1zz'') = ''isCustom:!1''
         \<and> length ''xxisCustom:!1yyisCustom:!1zz'' = length ''xxisCustom:!0yyisCustom:!0zz''"
  (is "\<exists>fs'. patchDroid ?opts ?fs = Some (Inr ?res, fs') \<and> _ \<and> _ \<and> _ \<and> _")
proof -
  let ?f = "\<lparr>content = ''xxisCustom:!0yyisCustom:!0zz'', mode = 493\<rparr>"
  have r: "map_option fst (patchDroid ?opts ?fs) = Some (Inr ?res)" by code_simp
  have o: "map_option (\<lambda>(r, d). fileAt d ''droid.patched'') (patchDroid ?opts ?fs)
             = Some (Some \<lparr>content = ''xxisCustom:!1yyisCustom:!1zz'', mode = 493\<rparr>)" by code_simp
  from r o obtain fs' where fs': "patchDroid ?opts ?fs = Some (Inr ?res, fs')"
    "fileAt fs' ''droid.patched'' = Some \<lparr>content = ''xxisCustom:!1yyisCustom:!1zz'', mode = 493\<rparr>"
    by (cases "patchDroid ?opts ?fs") auto
  have live: "dryRun ?opts \<noteq> Some True" by simp
  have needed: "\<exists>r \<in> set (results ?res). 0 < found r \<and> \<not> truthy (alreadyPatched r)"
    by (simp add: truthy_def)
  have input: "fileAt ?fs (inputPath ?opts) = Some ?f" by (simp add: fileAt_def)
  have names: "distinct (map name (patches ?opts))" by simp
  have eqlen: "\<forall>p \<in> set (patches ?opts). length (replacement p) = length (pattern p)" by simp
  have apart: "\<forall>p \<in> set (patches ?opts). \<forall>q \<in> set (patches ?opts). p \<noteq> q \<longrightarrow>
        (\<forall>i j. recorded (content ?f) p i \<and> recorded (content ?f) q j \<longrightarrow>
           i + length (pattern p) \<le> j \<or> j + length (pattern q) \<le> i)" by simp
  have rec: "recorded (content ?f) (hd (patches ?opts)) 2" "recorded (content ?f) (hd (patches ?opts)) 15"
    by code_simp+
  from patched_output_bytes [OF fs'(1) live needed input names eqlen apart] fs'(2) rec
  have "take (length ''isCustom:!1'') (drop 2 ''xxisCustom:!1yyisCustom:!1zz'') = ''isCustom:!1''
      \<and> take (length ''isCustom:!1'') (drop 15 ''xxisCustom:!1yyisCustom:!1zz'') = ''isCustom:!1''
      \<and> length ''xxisCustom:!1yyisCustom:!1zz'' = length ''xxisCustom:!0yyisCustom:!0zz''"
    by (simp add: finalOutputPath_def)
  with fs' show ?thesis by blast
qed

text \<open>
  C5, as stated, has every dry run return a result. A dry run scans like any other run,
  and the scan of an empty pattern never returns: for the patch below, whose pattern and
  replacement are both empty, the call on a readable three-byte file yields no result.
\<close>

theorem dry_run_returns_counterexample:
  "fileAt \<lparr>resolve = (\<lambda>p. p), files = [''droid'' \<mapsto> \<lparr>content = ''abc'', mode = 493\<rparr>]\<rparr> ''droid''
     = Some \<lparr>content = ''abc'', mode = 493\<rparr>
   \<and> readable \<lparr>content = ''abc'', mode = 493\<rparr>
   \<and> patchDroid \<lparr>inputPath = ''droid'', outputPath = None,
                 patches = [\<lparr>name = ''n'', description = ''d'', pattern = [], replacement = []\<rparr>],
                 dryRun = Some True, backup = None, verbose = None\<rparr>
       \<lparr>resolve = (\<lambda>p. p), files = [''droid'' \<mapsto> \<lparr>content = ''abc'', mode = 493\<rparr>]\<rparr>
     = None"
  by (simp add: patchDroid_def Let_def existsSync_def stat_def readFile_def fileAt_def
      readable_def checkPatch_def findAllPositions_empty)

text \<open>
  C5, amended. For every input and every patch list, a call with \<open>dryRun = true\<close> that
  settles, with a result or with an error, leaves the disk as it found it. And when the
  input file is there and readable, every pattern is non-empty and every patch whose
  pattern does not occur in the input has a non-empty replacement, the call does return:
  the patch results \<open>rs\<close> are those of the scan, the object returned has \<open>dryRun = true\<close>
  and a \<open>success\<close> that is true exactly when every patch result has
  \<open>success || alreadyPatched\<close>, which is to say when of every patch the pattern or the
  replacement occurs in the input.
\<close>

theorem dry_run_returns:
  assumes dry: "dryRun opts = Some True"
  shows "(\<forall>outcome fs'. patchDroid opts fs = Some (outcome, fs') \<longrightarrow> fs' = fs)
       \<and> (\<forall>f. fileAt fs (inputPath opts) = Some f \<and> readable f
               \<and> (\<forall>p \<in> set (patches opts).
                     pattern p \<noteq> [] \<and> (replacement p \<noteq> [] \<or> occursIn (content f) (pattern p))) \<longrightarrow>
             (\<exists>rs. checkPatches (content f) (patches opts) = Some rs
                \<and> patchDroid opts fs =
                    Some (Inr \<lparr>run_success = (\<forall>r \<in> set rs. success r \<or> truthy (alreadyPatched r)),
                               run_dryRun = Some True, run_outputPath = None, results = rs,
                               noPatchNeeded = None, patchedCount = None\<rparr>, fs)
                \<and> ((\<forall>r \<in> set rs. success r \<or> truthy (alreadyPatched r)) \<longleftrightarrow>
                     (\<forall>p \<in> set (patches opts).
                        occursIn (content f) (pattern p) \<or> occursIn (content f) (replacement p)))))"
proof (intro conjI allI impI)
  fix outcome fs'
  assume "patchDroid opts fs = Some (outcome, fs')"
  with dry show "fs' = fs"
    by (auto simp: patchDroid_def Let_def split: if_splits sum.splits option.splits)
next
  fix f
  assume a: "fileAt fs (inputPath opts) = Some f \<and> readable f
      \<and> (\<forall>p \<in> set (patches opts).
            pattern p \<noteq> [] \<and> (replacement p \<noteq> [] \<or> occursIn (content f) (pattern p)))"
  let ?buf = "content f"
  let ?rs = "map (\<lambda>p. the (checkPatch ?buf p)) (patches opts)"
  from a have pre: "existsSync fs (inputPath opts)"
    "stat fs (inputPath opts) = Inr (length (content f))"
    "readFile fs (inputPath opts) = Inr (content f)"
    by (simp_all add: existsSync_def stat_def readFile_def)
  have each: "\<exists>r. checkPatch ?buf p = Some r
      \<and> (success r \<or> truthy (alreadyPatched r) \<longleftrightarrow>
           occursIn ?buf (pattern p) \<or> occursIn ?buf (replacement p))"
    if "p \<in> set (patches opts)" for p
    using checkPatch_scannable [of p ?buf] a that by blast
  then have "\<forall>p \<in> set (patches opts). checkPatch ?buf p \<noteq> None" by fastforce
  from checkPatches_map [OF this]
  have scan: "checkPatches ?buf (patches opts) = Some ?rs" .
  have run: "patchDroid opts fs =
      Some (Inr \<lparr>run_success = (\<forall>r \<in> set ?rs. success r \<or> truthy (alreadyPatched r)),
                 run_dryRun = Some True, run_outputPath = None, results = ?rs,
                 noPatchNeeded = None, patchedCount = None\<rparr>, fs)"
    using dry by (simp add: patchDroid_def Let_def pre scan list_all_iff)
  have iff: "(\<forall>r \<in> set ?rs. success r \<or> truthy (alreadyPatched r)) \<longleftrightarrow>
      (\<forall>p \<in> set (patches opts). occursIn ?buf (pattern p) \<or> occursIn ?buf (replacement p))"
  proof -
    have "(success (the (checkPatch ?buf p)) \<or> truthy (alreadyPatched (the (checkPatch ?buf p))))
        \<longleftrightarrow> (occursIn ?buf (pattern p) \<or> occursIn ?buf (replacement p))"
      if "p \<in> set (patches opts)" for p
      using each [OF that] by auto
    then show ?thesis by simp
  qed
  from scan run iff
  show "\<exists>rs. checkPatches ?buf (patches opts) = Some rs
      \<and> patchDroid opts fs =
          Some (Inr \<lparr>run_success = (\<forall>r \<in> set rs. success r \<or> truthy (alreadyPatched r)),
                     run_dryRun = Some True, run_outputPath = None, results = rs,
                     noPatchNeeded = None, patchedCount = None\<rparr>, fs)
      \<and> ((\<forall>r \<in> set rs. success r \<or> truthy (alreadyPatched r)) \<longleftrightarrow>
           (\<forall>p \<in> set (patches opts). occursIn ?buf (pattern p) \<or> occursIn ?buf (replacement p)))"
    by blast
qed

text \<open>
  The theorem at a dry run over two patches, the first found twice, the second neither
  found nor already applied: the result is unsuccessful and the disk is the one given.
\<close>

theorem dry_run_returns_witness:
  "patchDroid \<lparr>inputPath = ''droid'', outputPath = None,
               patches = [\<lparr>name = ''isCustom'', description = ''Change isCustom:!0 to isCustom:!1'',
                           pattern = ''isCustom:!0'', replacement = ''isCustom:!1''\<rparr>,
                          \<lparr>name = ''other'', description = ''d'', pattern = ''Q'', replacement = ''R''\<rparr>],
               dryRun = Some True, backup = None, verbose = None\<rparr>
              \<lparr>resolve = (\<lambda>p. p),
               files = [''droid'' \<mapsto> \<lparr>content = ''xxisCustom:!0yyisCustom:!0zz'', mode = 493\<rparr>]\<rparr>
     = Some (Inr \<lparr>run_success = False, run_dryRun = Some True, run_outputPath = None,
                  results = [\<lparr>result_name = ''isCustom'', found = 2, positions = Some [2, 15],
                              success = True, alreadyPatched = None\<rparr>,
                             \<lparr>result_name = ''other'', found = 0, positions = None,
                              success = False, alreadyPatched = Some False\<rparr>],
                  noPatchNeeded = None, patchedCount = None\<rparr>,
             \<lparr>resolve = (\<lambda>p. p),
              files = [''droid'' \<mapsto> \<lparr>content = ''xxisCustom:!0yyisCustom:!0zz'', mode = 493\<rparr>]\<rparr>)"
  (is "patchDroid ?opts ?fs = Some (Inr ?res, ?fs)")
proof -
  let ?f = "\<lparr>content = ''xxisCustom:!0yyisCustom:!0zz'', mode = 493\<rparr>"
  have dry: "dryRun ?opts = Some True" by simp
  have scan: "checkPatches (content ?f) (patches ?opts) = Some (results ?res)" by code_simp
  have input: "fileAt ?fs (inputPath ?opts) = Some ?f \<and> readable ?f
      \<and> (\<forall>p \<in> set (patches ?opts).
            pattern p \<noteq> [] \<and> (replacement p \<noteq> [] \<or> occursIn (content ?f) (pattern p)))"
    by (simp add: readable_def fileAt_def)
  from dry_run_returns [OF dry, of ?fs, THEN conjunct2, rule_format, OF input] scan
  show ?thesis by (auto simp: truthy_def)
qed

text \<open>
  C8, as stated. In the buffer \<open>abc\<close> the pattern \<open>x\<close> does not occur, so the patch below
  has no occurrences to apply, and \<open>buffer.includes\<close> finds its empty replacement, so it
  counts as already patched. The claim has the call return \<open>success = true\<close>; but the scan
  for the empty replacement never returns, and the live call yields no result.
\<close>

theorem nothing_to_patch_counterexample:
  "\<not> occursIn ''abc'' ''x'' \<and> includes_buf ''abc'' []
   \<and> patchDroid \<lparr>inputPath = ''droid'', outputPath = None,
                 patches = [\<lparr>name = ''n'', description = ''d'', pattern = ''x'', replacement = []\<rparr>],
                 dryRun = None, backup = None, verbose = None\<rparr>
       \<lparr>resolve = (\<lambda>p. p), files = [''droid'' \<mapsto> \<lparr>content = ''abc'', mode = 493\<rparr>]\<rparr>
     = None"
proof -
  have a: "findAllPositions ''abc'' ''x'' = Some []" by code_simp
  have "''x'' \<noteq> ([] :: buffer)" by simp
  from findAllPositions_Nil_iff [OF this, of "''abc''"] a have "\<not> occursIn ''abc'' ''x''"
    by simp
  moreover have "includes_buf ''abc'' []" by (simp add: includes_buf_iff occursIn_empty)
  moreover have "patchDroid \<lparr>inputPath = ''droid'', outputPath = None,
                 patches = [\<lparr>name = ''n'', description = ''d'', pattern = ''x'', replacement = []\<rparr>],
                 dryRun = None, backup = None, verbose = None\<rparr>
       \<lparr>resolve = (\<lambda>p. p), files = [''droid'' \<mapsto> \<lparr>content = ''abc'', mode = 493\<rparr>]\<rparr>
     = None"
    by (simp add: patchDroid_def Let_def existsSync_def stat_def readFile_def fileAt_def
        readable_def checkPatch_def a findAllPositions_empty)
  ultimately show ?thesis by blast
qed

text \<open>
  C8, amended. In live mode, when the input file is there and readable, no pattern of any
  patch occurs in the input and every replacement is non-empty, the call returns at once
  and the disk it leaves is the disk it was given: no output file written, no backup
  made. Every patch result has no occurrences found and is \<open>alreadyPatched\<close> exactly when
  its replacement occurs in the input. If that is so of every patch, the object returned
  has \<open>success = true\<close>, \<open>noPatchNeeded = true\<close> and the input path as \<open>outputPath\<close>;
  otherwise it has \<open>success = false\<close>.
\<close>

theorem nothing_to_patch:
  assumes live: "dryRun opts \<noteq> Some True"
    and input: "fileAt fs (inputPath opts) = Some f" "readable f"
    and absent: "\<forall>p \<in> set (patches opts). \<not> occursIn (content f) (pattern p)"
    and repl: "\<forall>p \<in> set (patches opts). replacement p \<noteq> []"
  shows "\<exists>rs. rs = map (\<lambda>p. \<lparr>result_name = name p, found = 0, positions = None,
                              success = occursIn (content f) (replacement p),
                              alreadyPatched = Some (occursIn (content f) (replacement p))\<rparr>)
                      (patches opts)
           \<and> checkPatches (content f) (patches opts) = Some rs
           \<and> patchDroid opts fs =
               Some (Inr (if \<forall>p \<in> set (patches opts). occursIn (content f) (replacement p)
                          then \<lparr>run_success = True, run_dryRun = None,
                                run_outputPath = Some (inputPath opts), results = rs,
                                noPatchNeeded = Some True, patchedCount = None\<rparr>
                          else \<lparr>run_success = False, run_dryRun = None, run_outputPath = None,
                                results = rs, noPatchNeeded = None, patchedCount = None\<rparr>), fs)"
proof -
  let ?buf = "content f"
  let ?r = "\<lambda>p. \<lparr>result_name = name p, found = 0, positions = None,
                   success = occursIn ?buf (replacement p),
                   alreadyPatched = Some (occursIn ?buf (replacement p))\<rparr>"
  let ?rs = "map ?r (patches opts)"
  from input have pre: "existsSync fs (inputPath opts)"
    "stat fs (inputPath opts) = Inr (length (content f))"
    "readFile fs (inputPath opts) = Inr (content f)"
    by (simp_all add: existsSync_def stat_def readFile_def)
  have dry: "(case dryRun opts of None \<Rightarrow> False | Some b \<Rightarrow> b) = False"
    using live by (cases "dryRun opts") auto
  have each: "checkPatch ?buf p = Some (?r p)" if "p \<in> set (patches opts)" for p
    using checkPatch_absent [of p ?buf] repl absent that by blast
  then have "\<forall>p \<in> set (patches opts). checkPatch ?buf p \<noteq> None" by simp
  from checkPatches_map [OF this] each
  have scan: "checkPatches ?buf (patches opts) = Some ?rs" by simp
  have "patchDroid opts fs =
      Some (Inr (if \<forall>p \<in> set (patches opts). occursIn ?buf (replacement p)
                 then \<lparr>run_success = True, run_dryRun = None,
                       run_outputPath = Some (inputPath opts), results = ?rs,
                       noPatchNeeded = Some True, patchedCount = None\<rparr>
                 else \<lparr>run_success = False, run_dryRun = None, run_outputPath = None,
                       results = ?rs, noPatchNeeded = None, patchedCount = None\<rparr>), fs)"
    by (simp add: patchDroid_def Let_def pre scan dry list_all_iff truthy_def filter_empty_conv)
  with scan show ?thesis by blast
qed

text \<open>
  The theorem at the second run of the tool: the input is the output of the first run,
  the one patch is found already applied, and the disk stays as it is.
\<close>

theorem nothing_to_patch_witness:
  "patchDroid \<lparr>inputPath = ''droid'', outputPath = None,
               patches = [\<lparr>name = ''isCustom'', description = ''Change isCustom:!0 to isCustom:!1'',
                           pattern = ''isCustom:!0'', replacement = ''isCustom:!1''\<rparr>],
               dryRun = None, backup = None, verbose = None\<rparr>
              \<lparr>resolve = (\<lambda>p. p),
               files = [''droid'' \<mapsto> \<lparr>content = ''xxisCustom:!1yyisCustom:!1zz'', mode = 493\<rparr>]\<rparr>
     = Some (Inr \<lparr>run_success = True, run_dryRun = None, run_outputPath = Some ''droid'',
                  results = [\<lparr>result_name = ''isCustom'', found = 0, positions = None,
                              success = True, alreadyPatched = Some True\<rparr>],
                  noPatchNeeded = Some True, patchedCount = None\<rparr>,
             \<lparr>resolve = (\<lambda>p. p),
              files = [''droid'' \<mapsto> \<lparr>content = ''xxisCustom:!1yyisCustom:!1zz'', mode = 493\<rparr>]\<rparr>)"
  (is "patchDroid ?opts ?fs = Some (Inr ?res, ?fs)")
proof -
  let ?f = "\<lparr>content = ''xxisCustom:!1yyisCustom:!1zz'', mode = 493\<rparr>"
  have live: "dryRun ?opts \<noteq> Some True" by simp
  have input: "fileAt ?fs (inputPath ?opts) = Some ?f" "readable ?f"
    by (simp_all add: readable_def fileAt_def)
  have a: "findAllPositions (content ?f) ''isCustom:!0'' = Some []" by code_simp
  have "''isCustom:!0'' \<noteq> ([] :: buffer)" by simp
  from findAllPositions_Nil_iff [OF this, of "content ?f"] a
  have absent: "\<forall>p \<in> set (patches ?opts). \<not> occursIn (content ?f) (pattern p)" by simp
  have repl: "\<forall>p \<in> set (patches ?opts). replacement p \<noteq> []" by simp
  have occ: "occursIn (content ?f) ''isCustom:!1''"
    unfolding occursIn_def occursAt_def by (intro exI [of _ 2]) simp
  from nothing_to_patch [of ?opts ?fs ?f, OF live input absent repl] occ
  show ?thesis by simp
qed





text \<open>
  The same happens through another spelling of the backup's path. Here the disk resolves
  a leading \<open>./\<close> away, so that \<open>./droid.backup\<close> and \<open>droid.backup\<close> name one file; the
  output path differs from \<open><inputPath>.backup\<close> as a string, and the backup is
  overwritten all the same.
\<close>

lemma backup_overwritten_through_alias:
  "\<exists>fs'. patchDroid \<lparr>inputPath = ''droid'', outputPath = Some ''./droid.backup'',
                      patches = [\<lparr>name = ''n'', description = ''d'', pattern = ''X'', replacement = ''P''\<rparr>],
                      dryRun = None, backup = Some True, verbose = None\<rparr>
                    \<lparr>resolve = (\<lambda>p. if take 2 p = ''./'' then drop 2 p else p),
                     files = [''droid'' \<mapsto> \<lparr>content = ''aXb'', mode = 493\<rparr>,
                              ''droid.backup'' \<mapsto> \<lparr>content = ''original'', mode = 420\<rparr>]\<rparr>
           = Some (Inr \<lparr>run_success = True, run_dryRun = None, run_outputPath = Some ''./droid.backup'',
                        results = [\<lparr>result_name = ''n'', found = 1, positions = Some [1],
                                    success = True, alreadyPatched = None\<rparr>],
                        noPatchNeeded = None, patchedCount = Some 1\<rparr>, fs')
         \<and> fileAt fs' ''droid.backup'' = Some \<lparr>content = ''aPb'', mode = 493\<rparr>"
  (is "\<exists>fs'. patchDroid ?opts ?fs = Some (Inr ?res, fs') \<and> _")
proof -
  have r: "map_option fst (patchDroid ?opts ?fs) = Some (Inr ?res)" by code_simp
  have o: "map_option (\<lambda>(r, d). fileAt d ''droid.backup'') (patchDroid ?opts ?fs)
             = Some (Some \<lparr>content = ''aPb'', mode = 493\<rparr>)" by code_simp
  from r o obtain fs' where "patchDroid ?opts ?fs = Some (Inr ?res, fs')"
    "fileAt fs' ''droid.backup'' = Some \<lparr>content = ''aPb'', mode = 493\<rparr>"
    by (cases "patchDroid ?opts ?fs") auto
  then show ?thesis by blast
qed



end
